theory Spec2Isabelle
  imports Main "HOL-Library.Word"
begin

section \<open>External capabilities\<close>

text \<open>
  The program calls OpenSSL's SHA256 through \<^verbatim>\<open>sha256_hex\<close>, which renders the 32 digest
  bytes as 64 lowercase hexadecimal characters.  The digest function is not part of the
  repository, so every definition below takes it as the parameter \<open>H\<close> (the spec calls it
  a swappable external capability).  What the program relies on is stated as a predicate:
  the output consists of hexadecimal characters only.
\<close>

type_synonym digest = "string \<Rightarrow> string"

definition hex_chars :: "char set" where
  "hex_chars = set ''0123456789abcdef''"

definition hex_digest :: "digest \<Rightarrow> bool" where
  "hex_digest H = (\<forall>s. set (H s) \<subseteq> hex_chars)"

text \<open>
  \<^verbatim>\<open>ostream << uint64_t\<close>: the decimal rendering of an unsigned integer.
\<close>

definition digit_char :: "nat \<Rightarrow> char" where
  "digit_char n = char_of (48 + n)"

function show_nat :: "nat \<Rightarrow> string" where
  "show_nat n = (if n < 10 then [digit_char n] else show_nat (n div 10) @ [digit_char (n mod 10)])"
  by pat_completeness auto
termination
  by (relation "measure (\<lambda>n. n)") auto

declare show_nat.simps [simp del]

definition show_u64 :: "64 word \<Rightarrow> string" where
  "show_u64 w = show_nat (unat w)"

section \<open>Transaction\<close>

text \<open>
  \<^verbatim>\<open>amount\<close> is a C++ \<^verbatim>\<open>double\<close>.  Its type is the parameter \<open>'d\<close>, and its rendering by
  \<^verbatim>\<open>ostream << double\<close> is the parameter \<open>fmt\<close> of \<open>toString\<close>.  The field \<^verbatim>\<open>id\<close> is
  named \<open>id_tx\<close>, since \<open>id\<close> is the identity function of HOL.
\<close>

record 'd Transaction =
  id_tx :: string
  sender :: string
  receiver :: string
  amount :: 'd

definition toString :: "('d \<Rightarrow> string) \<Rightarrow> 'd Transaction \<Rightarrow> string" where
  "toString fmt tx = id_tx tx @ sender tx @ receiver tx @ fmt (amount tx)"

section \<open>Merkle tree\<close>

text \<open>
  \<^verbatim>\<open>buildTree\<close> keeps every level in one flat vector \<^verbatim>\<open>tree\<close>; \<^verbatim>\<open>offset\<close> is where the
  current level starts.  The inner \<^verbatim>\<open>for\<close> loop reads the current level and pushes the
  next one at the end; the outer \<^verbatim>\<open>while\<close> loop runs until the current level has one node.
  The definitions follow \<^verbatim>\<open>Exercice4.cpp\<close>; \<^verbatim>\<open>Exercice1.cpp\<close> has the same two loops with
  \<^verbatim>\<open>int\<close> counters.
\<close>

function buildLevel :: "digest \<Rightarrow> string list \<Rightarrow> nat \<Rightarrow> nat \<Rightarrow> nat \<Rightarrow> string list" where
  "buildLevel H tree offset levelSize i =
     (if i < levelSize then
        (if i + 1 < levelSize
         then buildLevel H (tree @ [H (tree ! (offset + i) @ tree ! (offset + i + 1))])
                offset levelSize (i + 2)
         else buildLevel H (tree @ [tree ! (offset + i)]) offset levelSize (i + 2))
      else tree)"
  by pat_completeness auto
termination
  by (relation "measure (\<lambda>(H, tree, offset, levelSize, i). levelSize - i)") auto

declare buildLevel.simps [simp del]

lemma length_buildLevel:
  "length (buildLevel H tree offset levelSize i) = length tree + (levelSize + 1 - i) div 2"
proof (induction H tree offset levelSize i rule: buildLevel.induct)
  case (1 H tree offset levelSize i)
  show ?case
  proof (cases "i < levelSize")
    case False
    then show ?thesis by (simp add: buildLevel.simps [of H tree offset levelSize i])
  next
    case True
    then have "(levelSize + 1 - i) div 2 = Suc ((levelSize + 1 - (i + 2)) div 2)"
      by arith
    with True 1 show ?thesis
      by (simp add: buildLevel.simps [of H tree offset levelSize i])
  qed
qed

function buildLevels :: "digest \<Rightarrow> string list \<Rightarrow> nat \<Rightarrow> string list" where
  "buildLevels H tree offset =
     (if length tree - offset > 1
      then buildLevels H (buildLevel H tree offset (length tree - offset) 0)
             (offset + (length tree - offset))
      else tree)"
  by pat_completeness auto
termination
proof (relation "measure (\<lambda>(H, tree, offset). length tree - offset)")
  show "wf (measure (\<lambda>(H :: digest, tree :: string list, offset). length tree - offset))"
    by simp
next
  fix H :: digest and tree :: "string list" and offset :: nat
  assume "1 < length tree - offset"
  then show "((H, buildLevel H tree offset (length tree - offset) 0,
               offset + (length tree - offset)), (H, tree, offset))
             \<in> measure (\<lambda>(H, tree, offset). length tree - offset)"
    by (simp add: length_buildLevel)
qed

declare buildLevels.simps [simp del]

definition buildTree :: "digest \<Rightarrow> string list \<Rightarrow> string list" where
  "buildTree H leaves = buildLevels H (map H leaves) 0"

definition getRoot :: "string list \<Rightarrow> string" where
  "getRoot tree = (if tree = [] then [] else last tree)"

definition MerkleTree :: "digest \<Rightarrow> string list \<Rightarrow> string list" where
  "MerkleTree H data = buildTree H data"

section \<open>Block\<close>

text \<open>
  The constructor reads the clock (\<^verbatim>\<open>time(nullptr)\<close>); the value read is the argument
  \<open>ts\<close>.  A new block has nonce 0 and an empty \<^verbatim>\<open>hash\<close> string.
\<close>

record 'd Block =
  index :: "64 word"
  previousHash :: string
  merkleRoot :: string
  transactions :: "'d Transaction list"
  timestamp :: "64 word"
  nonce :: "64 word"
  hash :: string

definition Block :: "digest \<Rightarrow> ('d \<Rightarrow> string) \<Rightarrow> 64 word \<Rightarrow> string \<Rightarrow> 'd Transaction list
    \<Rightarrow> 64 word \<Rightarrow> 'd Block" where
  "Block H fmt idx prev txs ts =
     \<lparr>index = idx, previousHash = prev,
      merkleRoot = getRoot (MerkleTree H (map (toString fmt) txs)),
      transactions = txs, timestamp = ts, nonce = 0, hash = []\<rparr>"

definition computeHash :: "digest \<Rightarrow> 'd Block \<Rightarrow> 64 word \<Rightarrow> string \<Rightarrow> string" where
  "computeHash H b testNonce validator =
     H (show_u64 (index b) @ previousHash b @ merkleRoot b @ show_u64 (timestamp b)
        @ show_u64 testNonce
        @ (if validator \<noteq> [] then '' (Validated by: '' @ validator @ '')'' else []))"

text \<open>
  \<^verbatim>\<open>mineBlock\<close> is \<^verbatim>\<open>while (true)\<close> with a \<^verbatim>\<open>break\<close>: it need not return, so its model
  returns an option and \<open>None\<close> is the run that never leaves the loop.
  \<^verbatim>\<open>hash.substr(0, difficulty)\<close> is \<open>take\<close>, \<^verbatim>\<open>string(difficulty, '0')\<close> is
  \<open>replicate\<close>, and \<^verbatim>\<open>++nonce\<close> wraps at \<open>2 ^ 64\<close>.  The blocks of \<^verbatim>\<open>Exercice2.cpp\<close>
  and \<^verbatim>\<open>Exercice3.cpp\<close> are mined by the same loop; their third serialized field is
  the string \<^verbatim>\<open>data\<close> where this block has \<^verbatim>\<open>merkleRoot\<close>.
\<close>

definition meetsDifficulty :: "32 word \<Rightarrow> string \<Rightarrow> bool" where
  "meetsDifficulty difficulty h = (take (unat difficulty) h = replicate (unat difficulty) CHR ''0'')"

partial_function (option) mineBlock :: "digest \<Rightarrow> 'd Block \<Rightarrow> 32 word \<Rightarrow> 'd Block option" where
  "mineBlock H b difficulty =
     (if meetsDifficulty difficulty (computeHash H b (nonce b) [])
      then Some (b\<lparr>hash := computeHash H b (nonce b) []\<rparr>)
      else mineBlock H (b\<lparr>hash := computeHash H b (nonce b) [], nonce := nonce b + 1\<rparr>) difficulty)"

definition forgeBlock :: "digest \<Rightarrow> 'd Block \<Rightarrow> string \<Rightarrow> 'd Block" where
  "forgeBlock H b validator =
     (let b0 = b\<lparr>nonce := 0\<rparr> in b0\<lparr>hash := computeHash H b0 (nonce b0) validator\<rparr>)"

section \<open>Blockchain\<close>

text \<open>
  \<^verbatim>\<open>std::string::find\<close>: the position of the first occurrence, \<open>None\<close> for \<^verbatim>\<open>npos\<close>.
\<close>

primrec str_find :: "string \<Rightarrow> string \<Rightarrow> nat option" where
  "str_find [] t = (if t = [] then Some 0 else None)"
| "str_find (c # cs) t =
     (if take (length t) (c # cs) = t then Some 0 else map_option Suc (str_find cs t))"

text \<open>
  The base class holds the vector \<^verbatim>\<open>chain\<close>; the two derived classes add \<^verbatim>\<open>difficulty\<close>
  and \<^verbatim>\<open>validators\<close>.  The base constructor leaves the unsealed genesis block in the
  chain; the amount \<^verbatim>\<open>0.0\<close> of its transaction is \<open>0\<close>.
\<close>

record 'd Blockchain =
  chain :: "'d Block list"

record 'd PoWBlockchain = "'d Blockchain" +
  difficulty :: "32 word"

record 'd PoSBlockchain = "'d Blockchain" +
  validators :: "(string \<times> 64 word) list"

definition genesisTx :: "('d::zero) Transaction list" where
  "genesisTx = [\<lparr>id_tx = ''0'', sender = ''Genesis'', receiver = ''Genesis'', amount = 0\<rparr>]"

definition Blockchain :: "digest \<Rightarrow> ('d \<Rightarrow> string) \<Rightarrow> 64 word \<Rightarrow> ('d::zero) Block list" where
  "Blockchain H fmt ts = [Block H fmt 0 ''0'' genesisTx ts]"

definition getLastBlock :: "'d Block list \<Rightarrow> 'd Block" where
  "getLastBlock c = last c"

text \<open>
  The validator that \<^verbatim>\<open>isValid\<close> extracts from the stored \<^verbatim>\<open>hash\<close> string:
  \<^verbatim>\<open>hash.substr(pos + 13)\<close>, cut at the first \<^verbatim>\<open>")"\<close> (\<^verbatim>\<open>substr(0, npos)\<close> keeps all).
  The marker found at \<open>pos\<close> has 14 characters, so \<open>pos + 13\<close> is within the string and
  \<^verbatim>\<open>substr\<close> does not throw.
\<close>

definition extractValidator :: "string \<Rightarrow> nat \<Rightarrow> string" where
  "extractValidator h pos =
     (let validator = drop (pos + 13) h
      in case str_find validator '')'' of None \<Rightarrow> validator | Some e \<Rightarrow> take e validator)"

definition recomputeHash :: "digest \<Rightarrow> 'd Block \<Rightarrow> string" where
  "recomputeHash H current =
     (case str_find (hash current) ''(Validated by:'' of
        None \<Rightarrow> computeHash H current (nonce current) []
      | Some pos \<Rightarrow> computeHash H current (nonce current) (extractValidator (hash current) pos))"

function isValid_loop :: "digest \<Rightarrow> 'd Block list \<Rightarrow> nat \<Rightarrow> bool" where
  "isValid_loop H c i =
     (if i < length c then
        (if previousHash (c ! i) \<noteq> hash (c ! (i - 1)) then False
         else if hash (c ! i) \<noteq> recomputeHash H (c ! i) then False
         else isValid_loop H c (i + 1))
      else True)"
  by pat_completeness auto
termination
  by (relation "measure (\<lambda>(H, c, i). length c - i)") auto

declare isValid_loop.simps [simp del]

definition isValid :: "digest \<Rightarrow> ('d, 'm) Blockchain_scheme \<Rightarrow> bool" where
  "isValid H bc = isValid_loop H (chain bc) 1"

section \<open>Proof-of-work chain\<close>

definition PoWBlockchain :: "digest \<Rightarrow> ('d \<Rightarrow> string) \<Rightarrow> 32 word \<Rightarrow> 64 word
    \<Rightarrow> ('d::zero) PoWBlockchain option" where
  "PoWBlockchain H fmt diff ts =
     (let c = Blockchain H fmt ts
      in case mineBlock H (c ! 0) diff of
           None \<Rightarrow> None
         | Some g \<Rightarrow> Some \<lparr>chain = c[0 := g], difficulty = diff\<rparr>)"

definition addBlock_PoW :: "digest \<Rightarrow> ('d \<Rightarrow> string) \<Rightarrow> 'd PoWBlockchain \<Rightarrow> 'd Transaction list
    \<Rightarrow> 64 word \<Rightarrow> 'd PoWBlockchain option" where
  "addBlock_PoW H fmt bc txs ts =
     (case mineBlock H
             (Block H fmt (of_nat (length (chain bc))) (hash (getLastBlock (chain bc))) txs ts)
             (difficulty bc) of
        None \<Rightarrow> None
      | Some newBlock \<Rightarrow> Some (bc\<lparr>chain := chain bc @ [newBlock]\<rparr>))"

text \<open>
  A caller's run: a sequence of \<^verbatim>\<open>addBlock\<close> calls, each with its batch and the clock
  value its block reads.
\<close>

fun addBlocks_PoW :: "digest \<Rightarrow> ('d \<Rightarrow> string) \<Rightarrow> 'd PoWBlockchain
    \<Rightarrow> ('d Transaction list \<times> 64 word) list \<Rightarrow> 'd PoWBlockchain option" where
  "addBlocks_PoW H fmt bc [] = Some bc"
| "addBlocks_PoW H fmt bc ((txs, ts) # calls) =
     (case addBlock_PoW H fmt bc txs ts of
        None \<Rightarrow> None
      | Some bc' \<Rightarrow> addBlocks_PoW H fmt bc' calls)"

section \<open>Proof-of-stake chain\<close>

text \<open>
  \<^verbatim>\<open>selectValidator\<close> (the same in \<^verbatim>\<open>Exercice3.cpp\<close> and \<^verbatim>\<open>Exercice4.cpp\<close>) sums the
  stakes in a \<^verbatim>\<open>uint64_t\<close> (wrapping), draws
  \<^verbatim>\<open>randVal\<close> from \<^verbatim>\<open>uniform_int_distribution<uint64_t>(0, totalStake - 1)\<close> and walks the
  list.  The draw is the argument \<open>randVal\<close>; \<open>drawRange\<close> is what the distribution
  guarantees about it.  After the loop the code returns \<^verbatim>\<open>validators.back().first\<close>,
  which is undefined on an empty vector: that is the only error of the model.
\<close>

datatype error = BackOfEmptyVector

definition totalStake :: "(string \<times> 64 word) list \<Rightarrow> 64 word" where
  "totalStake vs = foldl (\<lambda>total v. total + snd v) 0 vs"

definition drawRange :: "(string \<times> 64 word) list \<Rightarrow> 64 word \<Rightarrow> bool" where
  "drawRange vs randVal = (randVal \<le> totalStake vs - 1)"

fun selectLoop :: "(string \<times> 64 word) list \<Rightarrow> 64 word \<Rightarrow> 64 word \<Rightarrow> string option" where
  "selectLoop [] randVal current = None"
| "selectLoop (v # vs) randVal current =
     (if randVal < current + snd v then Some (fst v)
      else selectLoop vs randVal (current + snd v))"

definition selectValidator :: "(string \<times> 64 word) list \<Rightarrow> 64 word \<Rightarrow> error + string" where
  "selectValidator vs randVal =
     (case selectLoop vs randVal 0 of
        Some name \<Rightarrow> Inr name
      | None \<Rightarrow> if vs = [] then Inl BackOfEmptyVector else Inr (fst (last vs)))"

definition PoSBlockchain :: "digest \<Rightarrow> ('d \<Rightarrow> string) \<Rightarrow> (string \<times> 64 word) list \<Rightarrow> 64 word
    \<Rightarrow> 64 word \<Rightarrow> error + ('d::zero) PoSBlockchain" where
  "PoSBlockchain H fmt vals randVal ts =
     (let c = Blockchain H fmt ts
      in case selectValidator vals randVal of
           Inl e \<Rightarrow> Inl e
         | Inr validator \<Rightarrow>
             Inr \<lparr>chain = c[0 := forgeBlock H (c ! 0) validator], validators = vals\<rparr>)"

definition addBlock_PoS :: "digest \<Rightarrow> ('d \<Rightarrow> string) \<Rightarrow> 'd PoSBlockchain \<Rightarrow> 'd Transaction list
    \<Rightarrow> 64 word \<Rightarrow> 64 word \<Rightarrow> error + 'd PoSBlockchain" where
  "addBlock_PoS H fmt bc txs randVal ts =
     (let newBlock = Block H fmt (of_nat (length (chain bc))) (hash (getLastBlock (chain bc))) txs ts
      in case selectValidator (validators bc) randVal of
           Inl e \<Rightarrow> Inl e
         | Inr validator \<Rightarrow> Inr (bc\<lparr>chain := chain bc @ [forgeBlock H newBlock validator]\<rparr>))"

fun addBlocks_PoS :: "digest \<Rightarrow> ('d \<Rightarrow> string) \<Rightarrow> 'd PoSBlockchain
    \<Rightarrow> ('d Transaction list \<times> 64 word \<times> 64 word) list \<Rightarrow> error + 'd PoSBlockchain" where
  "addBlocks_PoS H fmt bc [] = Inr bc"
| "addBlocks_PoS H fmt bc ((txs, randVal, ts) # calls) =
     (case addBlock_PoS H fmt bc txs randVal ts of
        Inl e \<Rightarrow> Inl e
      | Inr bc' \<Rightarrow> addBlocks_PoS H fmt bc' calls)"

section \<open>A small digest for running the definitions\<close>

text \<open>
  Closed instances of the theorems need a digest function that can be evaluated.
  \<open>checksum_hex\<close> renders a one-byte polynomial checksum as two lowercase hexadecimal
  characters.  It stands in for SHA-256 only where a definition is run on a concrete
  input; no theorem about the program depends on it.
\<close>

definition hex_digit :: "nat \<Rightarrow> char" where
  "hex_digit n = ''0123456789abcdef'' ! (n mod 16)"

definition checksum_hex :: digest where
  "checksum_hex s =
     (let n = foldl (\<lambda>a c. (a * 31 + of_char c) mod 256) 7 s
      in [hex_digit (n div 16), hex_digit n])"

section \<open>The spec's rule for one Merkle level\<close>

text \<open>
  The spec's step from one level to the next: consecutive nodes are paired and the parent
  is the digest of their concatenation, left then right; a last node without a partner
  is promoted unchanged.
\<close>

fun nextLevel_spec :: "digest \<Rightarrow> string list \<Rightarrow> string list" where
  "nextLevel_spec H (a # b # xs) = H (a @ b) # nextLevel_spec H xs"
| "nextLevel_spec H [a] = [a]"
| "nextLevel_spec H [] = []"

section \<open>Predicates and harness used in the statements\<close>

text \<open>
  What \<^verbatim>\<open>isValid\<close> checks at index \<open>j\<close>: the link to the predecessor's stored digest and
  the stored digest against its recomputation.
\<close>

definition blockOk :: "digest \<Rightarrow> 'd Block list \<Rightarrow> nat \<Rightarrow> bool" where
  "blockOk H c j =
     (previousHash (c ! j) = hash (c ! (j - 1)) \<and> hash (c ! j) = recomputeHash H (c ! j))"

text \<open>The invariant of a chain sealed by mining: linked, and every digest recomputes.\<close>

definition sealedPoW :: "digest \<Rightarrow> 'd Block list \<Rightarrow> bool" where
  "sealedPoW H c =
     (c \<noteq> [] \<and> (\<forall>j<length c. hash (c ! j) = computeHash H (c ! j) (nonce (c ! j)) [])
      \<and> (\<forall>j. 0 < j \<and> j < length c \<longrightarrow> previousHash (c ! j) = hash (c ! (j - 1))))"

text \<open>
  The test harness of the spec's tampering property: the amount of transaction \<open>k\<close> of
  block \<open>i\<close> is overwritten in place; every other stored field, the stored
  \<^verbatim>\<open>merkleRoot\<close> and \<^verbatim>\<open>hash\<close> included, stays as it was.
\<close>

definition tamperAmount :: "('d, 'm) Blockchain_scheme \<Rightarrow> nat \<Rightarrow> nat \<Rightarrow> 'd \<Rightarrow> ('d, 'm) Blockchain_scheme" where
  "tamperAmount bc i k a =
     bc\<lparr>chain := (chain bc)[i := (chain bc ! i)
        \<lparr>transactions := (transactions (chain bc ! i))[k := (transactions (chain bc ! i) ! k)\<lparr>amount := a\<rparr>]\<rparr>]\<rparr>"

section \<open>Concrete chains\<close>

text \<open>
  The transactions of the demo in \<^verbatim>\<open>main\<close> (amounts 10.0 and 5.0 as whole numbers rendered
  in decimal), and the proof-of-work chain at difficulty 1 that the definitions build from
  them with \<open>checksum_hex\<close> and the clock values 1700000020, 1700000031, 1700000037.
\<close>

definition demoTxs :: "nat \<Rightarrow> nat Transaction list" where
  "demoTxs i =
     [\<lparr>id_tx = show_nat (i * 10 + 1), sender = ''ILIAS'', receiver = ''mostapha '', amount = 10\<rparr>,
      \<lparr>id_tx = show_nat (i * 10 + 2), sender = ''Nada'', receiver = ''Saad'', amount = 5\<rparr>]"

definition demoPoW0 :: "nat PoWBlockchain" where
  "demoPoW0 =
     \<lparr>chain = [\<lparr>index = 0, previousHash = ''0'', merkleRoot = ''07'', transactions = genesisTx,
                timestamp = 1700000020, nonce = 2, hash = ''00''\<rparr>],
      difficulty = 1\<rparr>"

definition demoPoW1 :: "nat PoWBlockchain" where
  "demoPoW1 =
     \<lparr>chain = [\<lparr>index = 0, previousHash = ''0'', merkleRoot = ''07'', transactions = genesisTx,
                timestamp = 1700000020, nonce = 2, hash = ''00''\<rparr>,
              \<lparr>index = 1, previousHash = ''00'', merkleRoot = ''37'', transactions = demoTxs 1,
                timestamp = 1700000031, nonce = 2, hash = ''00''\<rparr>],
      difficulty = 1\<rparr>"

definition demoPoW2 :: "nat PoWBlockchain" where
  "demoPoW2 =
     \<lparr>chain = [\<lparr>index = 0, previousHash = ''0'', merkleRoot = ''07'', transactions = genesisTx,
                timestamp = 1700000020, nonce = 2, hash = ''00''\<rparr>,
              \<lparr>index = 1, previousHash = ''00'', merkleRoot = ''37'', transactions = demoTxs 1,
                timestamp = 1700000031, nonce = 2, hash = ''00''\<rparr>,
              \<lparr>index = 2, previousHash = ''00'', merkleRoot = ''b9'', transactions = demoTxs 2,
                timestamp = 1700000037, nonce = 0, hash = ''04''\<rparr>],
      difficulty = 1\<rparr>"

section \<open>Concrete proof-of-stake chains: data\<close>

text \<open>
  The validators and the first batch of the demo in \<^verbatim>\<open>main\<close>, the chain forged from them
  with the draws 250 and 50, and the chain of the single validator \<open>(V1, 0)\<close>.
\<close>

definition posTxs :: "nat Transaction list" where
  "posTxs =
     [\<lparr>id_tx = ''11'', sender = ''Alice'', receiver = ''Bob'', amount = 10\<rparr>,
      \<lparr>id_tx = ''12'', sender = ''Bob'', receiver = ''Charlie'', amount = 5\<rparr>]"

definition demoValidators :: "(string \<times> 64 word) list" where
  "demoValidators = [(''Validator1'', 100), (''Validator2'', 200), (''Validator3'', 150)]"

definition demoPoS0 :: "nat PoSBlockchain" where
  "demoPoS0 =
     \<lparr>chain = [\<lparr>index = 0, previousHash = ''0'', merkleRoot = ''07'', transactions = genesisTx,
                timestamp = 1700000020, nonce = 0, hash = ''14''\<rparr>],
      validators = demoValidators\<rparr>"

definition demoPoS1 :: "nat PoSBlockchain" where
  "demoPoS1 =
     \<lparr>chain = [\<lparr>index = 0, previousHash = ''0'', merkleRoot = ''07'', transactions = genesisTx,
                timestamp = 1700000020, nonce = 0, hash = ''14''\<rparr>,
              \<lparr>index = 1, previousHash = ''14'', merkleRoot = ''62'', transactions = posTxs,
                timestamp = 1700000031, nonce = 0, hash = ''70''\<rparr>],
      validators = demoValidators\<rparr>"

definition zeroStakePoS0 :: "nat PoSBlockchain" where
  "zeroStakePoS0 =
     \<lparr>chain = [\<lparr>index = 0, previousHash = ''0'', merkleRoot = ''07'', transactions = genesisTx,
                timestamp = 1700000020, nonce = 0, hash = ''19''\<rparr>],
      validators = [(''V1'', 0)]\<rparr>"

definition zeroStakePoS1 :: "nat PoSBlockchain" where
  "zeroStakePoS1 =
     \<lparr>chain = [\<lparr>index = 0, previousHash = ''0'', merkleRoot = ''07'', transactions = genesisTx,
                timestamp = 1700000020, nonce = 0, hash = ''19''\<rparr>,
              \<lparr>index = 1, previousHash = ''19'', merkleRoot = ''62'', transactions = posTxs,
                timestamp = 1700000031, nonce = 0, hash = ''99''\<rparr>],
      validators = [(''V1'', 0)]\<rparr>"

section \<open>The spec's total stake\<close>

text \<open>
  The spec's total and cumulative stake: the sum of the weights as natural numbers.  The
  code's \<open>totalStake\<close> and running sum \<^verbatim>\<open>current\<close> are the same sums modulo \<open>2 ^ 64\<close>.
  The two validator lists are stake tables whose sum does not fit in 64 bits.
\<close>

definition totalStake_spec :: "(string \<times> 64 word) list \<Rightarrow> nat" where
  "totalStake_spec vs = sum_list (map (\<lambda>v. unat (snd v)) vs)"

definition wrapValidators :: "(string \<times> 64 word) list" where
  "wrapValidators = [(''A'', 1), (''B'', 18446744073709551615), (''C'', 10)]"

definition halfValidators :: "(string \<times> 64 word) list" where
  "halfValidators = [(''A'', 9223372036854775808), (''B'', 9223372036854775808)]"

section \<open>The stand-in digest is hexadecimal\<close>

lemma hex_digit_in: "hex_digit n \<in> hex_chars"
proof -
  have "n mod 16 < length ''0123456789abcdef''" by simp
  then have "''0123456789abcdef'' ! (n mod 16) \<in> set ''0123456789abcdef''"
    by (rule nth_mem)
  then show ?thesis by (simp only: hex_digit_def hex_chars_def)
qed

lemma hex_digest_checksum_hex: "hex_digest checksum_hex"
  by (simp add: hex_digest_def checksum_hex_def Let_def hex_digit_in)

section \<open>Merkle tree: one level against the spec's rule\<close>

lemma buildLevel_acc:
  "length tree = offset + levelSize \<Longrightarrow> i \<le> levelSize \<Longrightarrow>
   buildLevel H (tree @ acc) offset levelSize i
     = tree @ acc @ nextLevel_spec H (drop (offset + i) tree)"
proof (induction "levelSize - i" arbitrary: i acc rule: less_induct)
  case less
  show ?case
  proof (cases "i < levelSize")
    case False
    then have "buildLevel H (tree @ acc) offset levelSize i = tree @ acc"
      by (subst buildLevel.simps) simp
    with False less.prems show ?thesis
      by simp
  next
    case True
    note lt = this
    show ?thesis
    proof (cases "i + 1 < levelSize")
      case False
      with lt less.prems have "Suc (offset + i) = length tree"
        by simp
      then have d: "drop (offset + i) tree = [tree ! (offset + i)]"
        using Cons_nth_drop_Suc [of "offset + i" tree] by simp
      from False lt less.prems show ?thesis
        by (simp add: buildLevel.simps [of H _ offset levelSize i]
              buildLevel.simps [of H _ offset levelSize "Suc (Suc i)"] d nth_append)
    next
      case True
      with less.prems have d: "drop (offset + i) tree
          = tree ! (offset + i) # tree ! (offset + i + 1) # drop (offset + (i + 2)) tree"
        by (simp add: Cons_nth_drop_Suc add.commute add.left_commute)
      have ih: "buildLevel H (tree @ (acc @ [H (tree ! (offset + i) @ tree ! (offset + i + 1))]))
                  offset levelSize (i + 2)
                = tree @ (acc @ [H (tree ! (offset + i) @ tree ! (offset + i + 1))])
                    @ nextLevel_spec H (drop (offset + (i + 2)) tree)"
        using True less.prems by (intro less.hyps) auto
      from True less.prems ih show ?thesis
        by (simp add: buildLevel.simps [of H "tree @ acc" offset levelSize i] d nth_append)
    qed
  qed
qed

lemma buildLevel_refines:
  "offset \<le> length tree \<Longrightarrow>
   buildLevel H tree offset (length tree - offset) 0 = tree @ nextLevel_spec H (drop offset tree)"
  using buildLevel_acc [of tree offset "length tree - offset" 0 H "[]"] by simp

lemma nextLevel_spec_Nil: "nextLevel_spec H xs = [] \<longleftrightarrow> xs = []"
  by (induction H xs rule: nextLevel_spec.induct) auto

lemma last_nextLevel_spec:
  "odd (length xs) \<Longrightarrow> last (nextLevel_spec H xs) = last xs"
  by (induction H xs rule: nextLevel_spec.induct) (auto simp: nextLevel_spec_Nil)

lemma MerkleTree_three:
  "MerkleTree H [A, B, C] = [H A, H B, H C, H (H A @ H B), H C, H (H (H A @ H B) @ H C)]"
  by (simp add: MerkleTree_def buildTree_def buildLevels.simps buildLevel.simps)

text \<open>
  Claim C5.  A level with an odd number of nodes promotes its last node unchanged to the
  next level: the inner loop appends exactly the spec's next level, whose last node is the
  level's last node, so no node is hashed with itself or twice.  For the leaves
  \<open>[A, B, C]\<close> the vector holds level 0, then level 1 \<open>[H (H A @ H B), H C]\<close>, then the
  root \<open>H (level1[0] @ level1[1])\<close>.
\<close>

theorem merkle_odd_level_promotes_last:
  "MerkleTree H [A, B, C] = [H A, H B, H C, H (H A @ H B), H C, H (H (H A @ H B) @ H C)]
   \<and> getRoot (MerkleTree H [A, B, C]) = H (H (H A @ H B) @ H C)
   \<and> (\<forall>tree offset. offset \<le> length tree \<and> odd (length tree - offset) \<longrightarrow>
         buildLevel H tree offset (length tree - offset) 0
           = tree @ nextLevel_spec H (drop offset tree)
         \<and> last (buildLevel H tree offset (length tree - offset) 0) = last tree)"
proof (intro conjI allI impI)
  show "MerkleTree H [A, B, C] = [H A, H B, H C, H (H A @ H B), H C, H (H (H A @ H B) @ H C)]"
    by (rule MerkleTree_three)
  then show "getRoot (MerkleTree H [A, B, C]) = H (H (H A @ H B) @ H C)"
    by (simp add: getRoot_def)
next
  fix tree :: "string list" and offset
  assume a: "offset \<le> length tree \<and> odd (length tree - offset)"
  then show r: "buildLevel H tree offset (length tree - offset) 0
      = tree @ nextLevel_spec H (drop offset tree)"
    by (simp add: buildLevel_refines)
  from a have "drop offset tree \<noteq> []"
    by (auto elim: oddE)
  moreover from a have "last (nextLevel_spec H (drop offset tree)) = last (drop offset tree)"
    by (simp add: last_nextLevel_spec)
  ultimately show "last (buildLevel H tree offset (length tree - offset) 0) = last tree"
    using a by (simp add: r nextLevel_spec_Nil)
qed

theorem merkle_odd_level_promotes_last_witness:
  "MerkleTree checksum_hex [''A'', ''B'', ''C''] = [''1a'', ''1b'', ''1c'', ''28'', ''1c'', ''9f'']
   \<and> getRoot (MerkleTree checksum_hex [''A'', ''B'', ''C'']) = ''9f''
   \<and> buildLevel checksum_hex [''1a'', ''1b'', ''1c''] 0 3 0 = [''1a'', ''1b'', ''1c'', ''28'', ''1c'']
   \<and> last (buildLevel checksum_hex [''1a'', ''1b'', ''1c''] 0 3 0) = ''1c''"
proof -
  note t = merkle_odd_level_promotes_last [of checksum_hex "''A''" "''B''" "''C''"]
  have l3: "length [''1a'', ''1b'', ''1c''] - (0::nat) = 3"
    by simp
  have h: "(0::nat) \<le> length [''1a'', ''1b'', ''1c''] \<and> odd (length [''1a'', ''1b'', ''1c''] - (0::nat))"
    by simp
  from t h have g0: "buildLevel checksum_hex [''1a'', ''1b'', ''1c''] 0 (length [''1a'', ''1b'', ''1c''] - 0) 0
        = [''1a'', ''1b'', ''1c''] @ nextLevel_spec checksum_hex (drop 0 [''1a'', ''1b'', ''1c''])
      \<and> last (buildLevel checksum_hex [''1a'', ''1b'', ''1c''] 0 (length [''1a'', ''1b'', ''1c''] - 0) 0)
        = last [''1a'', ''1b'', ''1c'']"
    by blast
  note g = g0 [unfolded l3]
  from t have m: "MerkleTree checksum_hex [''A'', ''B'', ''C'']
      = [checksum_hex ''A'', checksum_hex ''B'', checksum_hex ''C'',
         checksum_hex (checksum_hex ''A'' @ checksum_hex ''B''), checksum_hex ''C'',
         checksum_hex (checksum_hex (checksum_hex ''A'' @ checksum_hex ''B'') @ checksum_hex ''C'')]"
    by blast
  from m g show ?thesis
    by (simp add: checksum_hex_def hex_digit_def getRoot_def)
qed

section \<open>Merkle tree: edge cases\<close>

text \<open>
  Claim C8.  Merkle root construction is total on its edge cases: for the empty leaf
  sequence \<open>getRoot\<close> returns the empty string, and for a single item the root is that
  item's level-0 digest \<open>H item\<close>.
\<close>

theorem merkle_root_edge_cases:
  "getRoot (MerkleTree H []) = '''' \<and> getRoot (MerkleTree H [item]) = H item"
  by (simp add: MerkleTree_def buildTree_def getRoot_def buildLevels.simps)

section \<open>Running the definitions on concrete inputs\<close>

lemmas run_simps = computeHash_def Block_def show_u64_def show_nat.simps digit_char_def
  checksum_hex_def hex_digit_def MerkleTree_def buildTree_def buildLevels.simps buildLevel.simps
  getRoot_def genesisTx_def toString_def meetsDifficulty_def

lemma word_le_2_cases: "(w :: 64 word) \<le> 2 \<Longrightarrow> w = 0 \<or> w = 1 \<or> w = 2"
proof -
  assume "w \<le> 2"
  then have "unat w \<le> 2" by (simp add: word_le_nat_alt)
  then have "unat w = 0 \<or> unat w = 1 \<or> unat w = 2" by arith
  moreover have w: "word_of_nat (unat w) = w" by simp
  ultimately show ?thesis
  proof (elim disjE)
    assume "unat w = 0"
    with w show ?thesis by simp
  next
    assume "unat w = 1"
    with w show ?thesis by simp
  next
    assume "unat w = 2"
    with w show ?thesis by simp
  qed
qed

section \<open>Proof-of-work mining\<close>

text \<open>The digest preimage does not contain the block's seal fields or its transactions.\<close>

lemma computeHash_seal_fields [simp]:
  "computeHash H (b\<lparr>hash := h\<rparr>) n v = computeHash H b n v"
  "computeHash H (b\<lparr>nonce := m\<rparr>) n v = computeHash H b n v"
  "computeHash H (b\<lparr>transactions := txs\<rparr>) n v = computeHash H b n v"
  by (simp_all add: computeHash_def)

text \<open>
  The loop started at nonce \<open>c\<close> returns at \<open>c + k\<close> when that is the first nonce from
  \<open>c\<close> on whose digest has the zero prefix.
\<close>

lemma mineBlock_from:
  "nonce b = c \<Longrightarrow>
   meetsDifficulty d (computeHash H b (c + of_nat k) []) \<Longrightarrow>
   \<forall>j<k. \<not> meetsDifficulty d (computeHash H b (c + of_nat j) []) \<Longrightarrow>
   mineBlock H b d = Some (b\<lparr>nonce := c + of_nat k, hash := computeHash H b (c + of_nat k) []\<rparr>)"
proof (induction k arbitrary: b c)
  case 0
  then show ?case
    by (subst mineBlock.simps) simp
next
  case (Suc k)
  let ?b = "b\<lparr>hash := computeHash H b (nonce b) [], nonce := nonce b + 1\<rparr>"
  from Suc.prems have no: "\<not> meetsDifficulty d (computeHash H b (nonce b) [])"
    by auto
  have "mineBlock H ?b d
      = Some (?b\<lparr>nonce := (c + 1) + of_nat k, hash := computeHash H ?b ((c + 1) + of_nat k) []\<rparr>)"
  proof (rule Suc.IH)
    show "nonce ?b = c + 1" using Suc.prems by simp
    show "meetsDifficulty d (computeHash H ?b (c + 1 + of_nat k) [])"
      using Suc.prems by (simp add: ac_simps)
    show "\<forall>j<k. \<not> meetsDifficulty d (computeHash H ?b (c + 1 + of_nat j) [])"
    proof (intro allI impI)
      fix j assume "j < k"
      then have "Suc j < Suc k" by simp
      with Suc.prems(3) have "\<not> meetsDifficulty d (computeHash H b (c + of_nat (Suc j)) [])"
        by blast
      then show "\<not> meetsDifficulty d (computeHash H ?b (c + 1 + of_nat j) [])"
        by (simp add: ac_simps)
    qed
  qed
  with no Suc.prems(1) show ?case
    by (subst mineBlock.simps) (simp add: ac_simps)
qed

lemma mineBlock_difficulty_zero:
  "mineBlock H b 0 = Some (b\<lparr>hash := computeHash H b (nonce b) []\<rparr>)"
  by (subst mineBlock.simps) (simp add: meetsDifficulty_def)

text \<open>
  Claim C4.  For every difficulty \<open>d\<close>, if some nonce qualifies, mining a fresh block
  (nonce 0) returns; the stored digest is the digest of the serialized fields (index,
  previousHash, merkleRoot, timestamp, nonce) at the stored nonce, its first \<open>d\<close>
  characters are all \<open>0\<close>, and no smaller nonce qualifies: the stored nonce is the least
  qualifying one.  Nothing else of the block changes.
\<close>

theorem mineBlock_finds_least_nonce:
  assumes fresh: "nonce b = 0"
    and ex: "\<exists>n. meetsDifficulty d (computeHash H b n [])"
  shows "\<exists>b'. mineBlock H b d = Some b'
           \<and> b' = b\<lparr>nonce := nonce b', hash := computeHash H b (nonce b') []\<rparr>
           \<and> hash b' = H (show_u64 (index b) @ previousHash b @ merkleRoot b
                            @ show_u64 (timestamp b) @ show_u64 (nonce b'))
           \<and> take (unat d) (hash b') = replicate (unat d) CHR ''0''
           \<and> (\<forall>m. m < nonce b' \<longrightarrow> \<not> meetsDifficulty d (computeHash H b m []))"
proof -
  define P where "P k = meetsDifficulty d (computeHash H b (of_nat k) [])" for k
  from ex obtain n where "meetsDifficulty d (computeHash H b n [])" ..
  then have Pn: "P (unat n)" by (simp add: P_def)
  define k where "k = (LEAST k. P k)"
  have Pk: "P k" unfolding k_def using Pn by (rule LeastI)
  have least: "\<not> P j" if "j < k" for j
    using that not_less_Least unfolding k_def by blast
  have "k \<le> unat n" unfolding k_def using Pn by (rule Least_le)
  then have uk: "unat (of_nat k :: 64 word) = k"
    by (rule le_unat_uoi)
  let ?b' = "b\<lparr>nonce := 0 + of_nat k, hash := computeHash H b (0 + of_nat k) []\<rparr>"
  have m: "mineBlock H b d = Some ?b'"
    using fresh Pk least by (intro mineBlock_from) (simp_all add: P_def)
  have "\<not> meetsDifficulty d (computeHash H b m [])" if "m < of_nat k" for m :: "64 word"
  proof -
    from that have "unat m < k" by (simp add: word_less_nat_alt uk)
    then have "\<not> P (unat m)" by (rule least)
    then show ?thesis by (simp add: P_def)
  qed
  moreover from Pk have "take (unat d) (hash ?b') = replicate (unat d) CHR ''0''"
    by (simp add: P_def meetsDifficulty_def)
  moreover have "hash ?b' = H (show_u64 (index b) @ previousHash b @ merkleRoot b
                            @ show_u64 (timestamp b) @ show_u64 (nonce ?b'))"
    by (simp add: computeHash_def)
  ultimately show ?thesis using m by simp
qed

theorem mineBlock_finds_least_nonce_witness:
  "mineBlock checksum_hex
     (Block checksum_hex show_nat 0 ''0'' (genesisTx :: nat Transaction list) 1700000020) 1
   = Some ((Block checksum_hex show_nat 0 ''0'' genesisTx 1700000020)\<lparr>nonce := 2, hash := ''00''\<rparr>)"
proof -
  let ?b = "Block checksum_hex show_nat 0 ''0'' (genesisTx :: nat Transaction list) 1700000020"
  have h0: "\<not> meetsDifficulty 1 (computeHash checksum_hex ?b 0 [])"
    by (simp add: run_simps)
  have h1: "\<not> meetsDifficulty 1 (computeHash checksum_hex ?b 1 [])"
    by (simp add: run_simps)
  have e2: "computeHash checksum_hex ?b 2 [] = ''00''"
    by (simp add: run_simps)
  then have h2: "meetsDifficulty 1 (computeHash checksum_hex ?b 2 [])"
    by (simp add: meetsDifficulty_def)
  have fresh: "nonce ?b = 0"
    by (simp add: Block_def)
  from h2 have ex: "\<exists>n. meetsDifficulty 1 (computeHash checksum_hex ?b n [])" ..
  from mineBlock_finds_least_nonce [OF fresh ex]
  obtain b' where m: "mineBlock checksum_hex ?b 1 = Some b'"
    and b': "b' = ?b\<lparr>nonce := nonce b', hash := computeHash checksum_hex ?b (nonce b') []\<rparr>"
    and z: "take (unat (1 :: 32 word)) (hash b') = replicate (unat (1 :: 32 word)) CHR ''0''"
    and least: "\<forall>m. m < nonce b' \<longrightarrow> \<not> meetsDifficulty 1 (computeHash checksum_hex ?b m [])"
    by blast
  from least h2 have "\<not> 2 < nonce b'" by blast
  then have "nonce b' = 0 \<or> nonce b' = 1 \<or> nonce b' = 2"
    by (intro word_le_2_cases) simp
  moreover have hb: "hash b' = computeHash checksum_hex ?b (nonce b') []"
    using arg_cong [OF b', of hash] by simp
  with z have "meetsDifficulty 1 (computeHash checksum_hex ?b (nonce b') [])"
    by (simp add: meetsDifficulty_def)
  ultimately have n2: "nonce b' = 2"
    using h0 h1 by auto
  note b'[unfolded n2 e2]
  with m show ?thesis by simp
qed

section \<open>Validation\<close>

text \<open>A hexadecimal digest never contains the marker that \<^verbatim>\<open>isValid\<close> searches for.\<close>

lemma str_find_None: "c \<in> set t \<Longrightarrow> c \<notin> set s \<Longrightarrow> str_find s t = None"
proof (induction s)
  case Nil
  then show ?case by auto
next
  case (Cons a s)
  have "take (length t) (a # s) \<noteq> t"
  proof
    assume "take (length t) (a # s) = t"
    then have "set t \<subseteq> set (a # s)" by (metis set_take_subset)
    with Cons.prems show False by auto
  qed
  with Cons show ?case by simp
qed

lemma paren_not_hex: "CHR ''('' \<notin> hex_chars"
  by (simp add: hex_chars_def)

lemma recomputeHash_hex:
  "set (hash b) \<subseteq> hex_chars \<Longrightarrow> recomputeHash H b = computeHash H b (nonce b) []"
proof -
  assume "set (hash b) \<subseteq> hex_chars"
  with paren_not_hex have "CHR ''('' \<notin> set (hash b)" by blast
  then have "str_find (hash b) ''(Validated by:'' = None"
    by (intro str_find_None [of "CHR ''(''"]) simp_all
  then show ?thesis by (simp add: recomputeHash_def)
qed

text \<open>The loop of \<^verbatim>\<open>isValid\<close> checks every index from \<open>i\<close> on.\<close>

lemma isValid_loop_iff:
  "isValid_loop H c i = (\<forall>j. i \<le> j \<and> j < length c \<longrightarrow> blockOk H c j)"
proof (induction H c i rule: isValid_loop.induct)
  case (1 H c i)
  show ?case
  proof (cases "i < length c")
    case False
    then show ?thesis by (subst isValid_loop.simps) auto
  next
    case True
    show ?thesis
    proof (cases "blockOk H c i")
      case False
      with True show ?thesis
        by (subst isValid_loop.simps) (auto simp: blockOk_def)
    next
      case ok: True
      with True have "isValid_loop H c i = isValid_loop H c (i + 1)"
        by (subst isValid_loop.simps) (simp add: blockOk_def)
      also from True ok have "\<dots> = (\<forall>j. i + 1 \<le> j \<and> j < length c \<longrightarrow> blockOk H c j)"
        by (intro "1.IH") (simp_all add: blockOk_def)
      also have "\<dots> = (\<forall>j. i \<le> j \<and> j < length c \<longrightarrow> blockOk H c j)"
        using ok by (metis Suc_eq_plus1 Suc_leI le_neq_implies_less Suc_leD)
      finally show ?thesis .
    qed
  qed
qed

section \<open>Honest proof-of-work chains\<close>

text \<open>Whenever mining returns, the block it returns is sealed.\<close>

lemma mineBlock_Some:
  assumes "mineBlock H b d = Some b'"
  shows "b' = b\<lparr>nonce := nonce b', hash := computeHash H b (nonce b') []\<rparr>
         \<and> meetsDifficulty d (hash b')"
proof -
  define P :: "digest \<Rightarrow> 'a Block \<Rightarrow> 32 word \<Rightarrow> 'a Block \<Rightarrow> bool" where
    "P H b d y = (y = b\<lparr>nonce := nonce y, hash := computeHash H b (nonce y) []\<rparr>
                   \<and> meetsDifficulty d (hash y))" for H b d y
  have "P H b d b'"
  proof (rule mineBlock.raw_induct [where P = P, OF _ assms])
    fix mb :: "digest \<Rightarrow> 'a Block \<Rightarrow> 32 word \<Rightarrow> 'a Block option" and H b d y
    assume IH: "\<And>H b d y. mb H b d = Some y \<Longrightarrow> P H b d y"
      and eq: "(if meetsDifficulty d (computeHash H b (nonce b) [])
                then Some (b\<lparr>hash := computeHash H b (nonce b) []\<rparr>)
                else mb H (b\<lparr>hash := computeHash H b (nonce b) [], nonce := nonce b + 1\<rparr>) d)
               = Some y"
    show "P H b d y"
    proof (cases "meetsDifficulty d (computeHash H b (nonce b) [])")
      case True
      with eq show ?thesis by (auto simp: P_def)
    next
      case False
      with eq have "mb H (b\<lparr>hash := computeHash H b (nonce b) [], nonce := nonce b + 1\<rparr>) d = Some y"
        by simp
      from IH [OF this] show ?thesis by (simp add: P_def)
    qed
  qed
  then show ?thesis by (simp add: P_def)
qed

lemma mineBlock_sealed:
  "mineBlock H b d = Some b' \<Longrightarrow>
   hash b' = computeHash H b' (nonce b') [] \<and> previousHash b' = previousHash b"
proof -
  assume "mineBlock H b d = Some b'"
  from mineBlock_Some [OF this]
  have e: "b' = b\<lparr>nonce := nonce b', hash := computeHash H b (nonce b') []\<rparr>" by blast
  have "hash b' = computeHash H b (nonce b') []"
    using arg_cong [OF e, of hash] by simp
  moreover have "computeHash H b' (nonce b') [] = computeHash H b (nonce b') []"
    using arg_cong [OF e, of "\<lambda>x. computeHash H x (nonce b') []"] by simp
  moreover have "previousHash b' = previousHash b"
    using arg_cong [OF e, of previousHash] by simp
  ultimately show ?thesis by simp
qed

lemma sealedPoW_genesis:
  "PoWBlockchain H fmt d ts = Some bc \<Longrightarrow> sealedPoW H (chain bc) \<and> length (chain bc) = 1"
  by (auto simp: PoWBlockchain_def Blockchain_def sealedPoW_def Let_def
      split: option.splits dest: mineBlock_sealed)

lemma sealedPoW_addBlock:
  assumes "sealedPoW H (chain bc)" and "addBlock_PoW H fmt bc txs ts = Some bc'"
  shows "sealedPoW H (chain bc') \<and> length (chain bc') = Suc (length (chain bc))"
proof -
  from assms(2) obtain nb where
    m: "mineBlock H (Block H fmt (of_nat (length (chain bc))) (hash (getLastBlock (chain bc))) txs ts)
          (difficulty bc) = Some nb"
    and c: "chain bc' = chain bc @ [nb]"
    by (auto simp: addBlock_PoW_def split: option.splits)
  from mineBlock_sealed [OF m] have nb: "hash nb = computeHash H nb (nonce nb) []"
    and prev: "previousHash nb = hash (last (chain bc))"
    by (simp_all add: Block_def getLastBlock_def)
  from assms(1) have ne: "chain bc \<noteq> []" by (simp add: sealedPoW_def)
  have A: "hash ((chain bc @ [nb]) ! j) = computeHash H ((chain bc @ [nb]) ! j) (nonce ((chain bc @ [nb]) ! j)) []"
    if "j < Suc (length (chain bc))" for j
    using that assms(1) nb by (cases "j < length (chain bc)") (auto simp: nth_append sealedPoW_def)
  have B: "previousHash ((chain bc @ [nb]) ! j) = hash ((chain bc @ [nb]) ! (j - 1))"
    if "0 < j" "j < Suc (length (chain bc))" for j
  proof (cases "j < length (chain bc)")
    case True
    then have "j - 1 < length (chain bc)" by simp
    with True that assms(1) show ?thesis by (simp add: nth_append sealedPoW_def)
  next
    case False
    with that have j: "j = length (chain bc)" by simp
    with ne prev show ?thesis by (simp add: nth_append last_conv_nth)
  qed
  have "sealedPoW H (chain bc @ [nb])"
    unfolding sealedPoW_def
  proof (intro conjI allI impI)
    show "chain bc @ [nb] \<noteq> []" by simp
  next
    fix j assume "j < length (chain bc @ [nb])"
    then have "j < Suc (length (chain bc))" by simp
    then show "hash ((chain bc @ [nb]) ! j)
        = computeHash H ((chain bc @ [nb]) ! j) (nonce ((chain bc @ [nb]) ! j)) []"
      by (rule A)
  next
    fix j assume "0 < j \<and> j < length (chain bc @ [nb])"
    then have "0 < j" "j < Suc (length (chain bc))" by simp_all
    then show "previousHash ((chain bc @ [nb]) ! j) = hash ((chain bc @ [nb]) ! (j - 1))"
      by (rule B)
  qed
  with c show ?thesis by simp
qed

lemma sealedPoW_addBlocks:
  "sealedPoW H (chain bc) \<Longrightarrow> addBlocks_PoW H fmt bc calls = Some bc' \<Longrightarrow>
   sealedPoW H (chain bc') \<and> length (chain bc') = length (chain bc) + length calls"
proof (induction calls arbitrary: bc)
  case Nil
  then show ?case by simp
next
  case (Cons call calls)
  obtain txs ts where call: "call = (txs, ts)" by (cases call)
  with Cons.prems obtain bc1 where a: "addBlock_PoW H fmt bc txs ts = Some bc1"
    and r: "addBlocks_PoW H fmt bc1 calls = Some bc'"
    by (auto split: option.splits)
  from sealedPoW_addBlock [OF Cons.prems(1) a] Cons.IH [OF _ r] show ?case by simp
qed

lemma sealedPoW_valid:
  assumes "hex_digest H" and "sealedPoW H c"
  shows "isValid_loop H c 1"
proof -
  have "blockOk H c j" if "1 \<le> j" "j < length c" for j
  proof -
    from that assms(2) have h: "hash (c ! j) = computeHash H (c ! j) (nonce (c ! j)) []"
      and p: "previousHash (c ! j) = hash (c ! (j - 1))"
      by (simp_all add: sealedPoW_def)
    from h assms(1) have "set (hash (c ! j)) \<subseteq> hex_chars"
      by (metis computeHash_def hex_digest_def)
    then have "recomputeHash H (c ! j) = computeHash H (c ! j) (nonce (c ! j)) []"
      by (rule recomputeHash_hex)
    with h p show ?thesis by (simp add: blockOk_def)
  qed
  then show ?thesis by (simp add: isValid_loop_iff)
qed


text \<open>
  When no nonce qualifies (for instance when \<open>difficulty\<close> exceeds the length of the
  digest), the loop never returns.
\<close>

lemma mineBlock_diverges:
  assumes "\<forall>n. \<not> meetsDifficulty d (computeHash H b n [])"
  shows "mineBlock H b d = None"
proof (cases "mineBlock H b d")
  case None
  then show ?thesis .
next
  case (Some b')
  from mineBlock_Some [OF Some]
  have e: "b' = b\<lparr>nonce := nonce b', hash := computeHash H b (nonce b') []\<rparr>"
    and m: "meetsDifficulty d (hash b')"
    by blast+
  have "hash b' = computeHash H b (nonce b') []"
    using arg_cong [OF e, of hash] by simp
  with m assms show ?thesis by simp
qed

text \<open>The concrete chain is what the constructor and two \<^verbatim>\<open>addBlock\<close> calls build.\<close>

lemma all_less_2: "(\<forall>j<2::nat. P j) = (P 0 \<and> P 1)"
  by (auto simp: numeral_2_eq_2 less_Suc_eq)

lemma mineBlock_eval:
  "nonce b = 0 \<Longrightarrow> computeHash H b (of_nat k) [] = h \<Longrightarrow> meetsDifficulty d h \<Longrightarrow>
   \<forall>j<k. \<not> meetsDifficulty d (computeHash H b (of_nat j) []) \<Longrightarrow>
   mineBlock H b d = Some (b\<lparr>nonce := of_nat k, hash := h\<rparr>)"
  using mineBlock_from [of b 0 d H k] by simp

lemma all_less_0: "(\<forall>j<0::nat. P j) = True"
  by simp

lemma demoPoW0_built: "PoWBlockchain checksum_hex show_nat 1 1700000020 = Some demoPoW0"
proof -
  let ?b = "Block checksum_hex show_nat 0 ''0'' (genesisTx :: nat Transaction list) 1700000020"
  have "mineBlock checksum_hex ?b 1 = Some (?b\<lparr>nonce := of_nat 2, hash := ''00''\<rparr>)"
  proof (rule mineBlock_eval)
    show "nonce ?b = 0" by (simp add: Block_def)
    show "computeHash checksum_hex ?b (of_nat 2) [] = ''00''" by (simp add: run_simps)
    show "meetsDifficulty 1 ''00''" by (simp add: meetsDifficulty_def)
    show "\<forall>j<2. \<not> meetsDifficulty 1 (computeHash checksum_hex ?b (of_nat j) [])"
      unfolding all_less_2 by (simp add: run_simps)
  qed
  moreover have "?b\<lparr>nonce := of_nat 2, hash := ''00''\<rparr> = hd (chain demoPoW0)"
    by (simp add: demoPoW0_def run_simps)
  ultimately show ?thesis
    by (simp add: PoWBlockchain_def Blockchain_def demoPoW0_def)
qed

lemma demoPoW1_built:
  "addBlock_PoW checksum_hex show_nat demoPoW0 (demoTxs 1) 1700000031 = Some demoPoW1"
proof -
  let ?b = "Block checksum_hex show_nat 1 ''00'' (demoTxs 1) 1700000031"
  have "mineBlock checksum_hex ?b 1 = Some (?b\<lparr>nonce := of_nat 2, hash := ''00''\<rparr>)"
  proof (rule mineBlock_eval)
    show "nonce ?b = 0" by (simp add: Block_def)
    show "computeHash checksum_hex ?b (of_nat 2) [] = ''00''" by (simp add: demoTxs_def run_simps)
    show "meetsDifficulty 1 ''00''" by (simp add: meetsDifficulty_def)
    show "\<forall>j<2. \<not> meetsDifficulty 1 (computeHash checksum_hex ?b (of_nat j) [])"
      unfolding all_less_2 by (simp add: demoTxs_def run_simps)
  qed
  moreover have "?b\<lparr>nonce := of_nat 2, hash := ''00''\<rparr> = chain demoPoW1 ! 1"
    by (simp add: demoPoW1_def demoTxs_def run_simps)
  ultimately show ?thesis
    by (simp add: addBlock_PoW_def getLastBlock_def demoPoW0_def demoPoW1_def)
qed

lemma demoPoW2_built:
  "addBlock_PoW checksum_hex show_nat demoPoW1 (demoTxs 2) 1700000037 = Some demoPoW2"
proof -
  let ?b = "Block checksum_hex show_nat 2 ''00'' (demoTxs 2) 1700000037"
  have "mineBlock checksum_hex ?b 1 = Some (?b\<lparr>nonce := of_nat 0, hash := ''04''\<rparr>)"
  proof (rule mineBlock_eval)
    show "nonce ?b = 0" by (simp add: Block_def)
    show "computeHash checksum_hex ?b (of_nat 0) [] = ''04''" by (simp add: demoTxs_def run_simps)
    show "meetsDifficulty 1 ''04''" by (simp add: meetsDifficulty_def)
    show "\<forall>j<0. \<not> meetsDifficulty 1 (computeHash checksum_hex ?b (of_nat j) [])"
      by simp
  qed
  moreover have "?b\<lparr>nonce := of_nat 0, hash := ''04''\<rparr> = chain demoPoW2 ! 2"
    by (simp add: demoPoW2_def demoTxs_def run_simps)
  ultimately show ?thesis
    by (simp add: addBlock_PoW_def getLastBlock_def demoPoW1_def demoPoW2_def)
qed


lemma demoPoW2_run:
  "addBlocks_PoW checksum_hex show_nat demoPoW0
     [(demoTxs 1, 1700000031), (demoTxs 2, 1700000037)] = Some demoPoW2"
  by (simp only: addBlocks_PoW.simps demoPoW1_built demoPoW2_built option.case)

lemma pow_run_valid:
  assumes "hex_digest H" and "PoWBlockchain H fmt d ts0 = Some bc0"
    and "addBlocks_PoW H fmt bc0 calls = Some bc"
  shows "sealedPoW H (chain bc)" and "isValid H bc" and "length (chain bc) = 1 + length calls"
proof -
  from sealedPoW_genesis [OF assms(2)] have g: "sealedPoW H (chain bc0)" "length (chain bc0) = 1"
    by simp_all
  from sealedPoW_addBlocks [OF g(1) assms(3)] g(2)
  show s: "sealedPoW H (chain bc)" and "length (chain bc) = 1 + length calls"
    by simp_all
  from sealedPoW_valid [OF assms(1) s] show "isValid H bc"
    by (simp add: isValid_def)
qed

text \<open>
  Claim C6.  Every chain reached by constructing a proof-of-work blockchain and performing
  any sequence of \<^verbatim>\<open>addBlock\<close> calls is linked (for every \<open>i > 0\<close> the block's
  \<^verbatim>\<open>previousHash\<close> is its predecessor's digest), every such block's digest equals its
  recomputation, and \<^verbatim>\<open>isValid\<close> returns true.  The digest function is assumed to
  return hexadecimal characters, as \<^verbatim>\<open>sha256_hex\<close> does.
\<close>

theorem pow_chain_valid:
  assumes "hex_digest H"
    and "PoWBlockchain H fmt d ts0 = Some bc0"
    and "addBlocks_PoW H fmt bc0 calls = Some bc"
  shows "(\<forall>i. 0 < i \<and> i < length (chain bc) \<longrightarrow>
            previousHash (chain bc ! i) = hash (chain bc ! (i - 1))
            \<and> hash (chain bc ! i) = computeHash H (chain bc ! i) (nonce (chain bc ! i)) []
            \<and> hash (chain bc ! i) = recomputeHash H (chain bc ! i))
         \<and> isValid H bc"
proof -
  note r = pow_run_valid [OF assms]
  have "blockOk H (chain bc) i" if "1 \<le> i" "i < length (chain bc)" for i
    using r(2) that by (simp add: isValid_def isValid_loop_iff)
  with r(1) r(2) show ?thesis
    by (simp add: sealedPoW_def blockOk_def)
qed

theorem pow_chain_valid_witness:
  "isValid checksum_hex demoPoW2
   \<and> previousHash (chain demoPoW2 ! 2) = hash (chain demoPoW2 ! (2 - 1))
   \<and> hash (chain demoPoW2 ! 2) = recomputeHash checksum_hex (chain demoPoW2 ! 2)"
proof -
  note t = pow_chain_valid [OF hex_digest_checksum_hex demoPoW0_built demoPoW2_run]
  have l: "0 < (2::nat) \<and> 2 < length (chain demoPoW2)" by (simp add: demoPoW2_def)
  from t l show ?thesis by blast
qed

section \<open>The genesis block is not validated\<close>

lemma blockOk_genesis_content:
  "hash g' = hash g \<Longrightarrow> 1 \<le> j \<Longrightarrow> blockOk H (g' # rest) j = blockOk H (g # rest) j"
proof -
  assume h: "hash g' = hash g" and "1 \<le> j"
  then obtain n where j: "j = Suc n" by (cases j) auto
  show ?thesis
    by (cases n) (simp_all add: j blockOk_def h)
qed

text \<open>
  Claim C10.  \<^verbatim>\<open>isValid\<close> never recomputes or checks the genesis block's own digest: two
  chains that differ only in block 0, whose stored \<^verbatim>\<open>hash\<close> is the same in both, get the
  same result, whatever block 0's other fields are.
\<close>

theorem isValid_ignores_genesis_content:
  assumes "chain bc = g # rest" and "chain bc' = g' # rest" and "hash g' = hash g"
  shows "isValid H bc' = isValid H bc"
proof -
  have "blockOk H (g' # rest) j = blockOk H (g # rest) j" if "1 \<le> j" for j
    using assms(3) that by (rule blockOk_genesis_content)
  then have "(\<forall>j. 1 \<le> j \<and> j < length (g' # rest) \<longrightarrow> blockOk H (g' # rest) j)
      = (\<forall>j. 1 \<le> j \<and> j < length (g # rest) \<longrightarrow> blockOk H (g # rest) j)"
    by auto
  then show ?thesis
    by (simp only: isValid_def isValid_loop_iff assms(1,2))
qed

theorem isValid_ignores_genesis_content_witness:
  "isValid checksum_hex
     \<lparr>chain = [\<lparr>index = 0, previousHash = ''0'', merkleRoot = ''ff'', transactions = [],
                timestamp = 1, nonce = 99, hash = ''00''\<rparr>,
              \<lparr>index = 1, previousHash = ''00'', merkleRoot = ''37'', transactions = demoTxs 1,
                timestamp = 1700000031, nonce = 2, hash = ''00''\<rparr>],
      difficulty = 1\<rparr>
   = isValid checksum_hex demoPoW1"
  by (rule isValid_ignores_genesis_content
        [where rest = "tl (chain demoPoW1)" and g = "hd (chain demoPoW1)"
           and g' = "\<lparr>index = 0, previousHash = ''0'', merkleRoot = ''ff'', transactions = [],
                timestamp = 1, nonce = 99, hash = ''00''\<rparr>"])
     (simp_all add: demoPoW1_def)

section \<open>Tampering with a transaction amount\<close>

lemma recomputeHash_transactions:
  "recomputeHash H (b\<lparr>transactions := txs\<rparr>) = recomputeHash H b"
  by (simp add: recomputeHash_def split: option.split)

lemma hash_update_transactions:
  "hash ((c[i := (c ! i)\<lparr>transactions := txs\<rparr>]) ! n) = hash (c ! n)"
  by (cases "i < length c") (simp_all add: nth_list_update list_update_beyond)

lemma previousHash_update_transactions:
  "previousHash ((c[i := (c ! i)\<lparr>transactions := txs\<rparr>]) ! n) = previousHash (c ! n)"
  by (cases "i < length c") (simp_all add: nth_list_update list_update_beyond)

lemma recomputeHash_update_transactions:
  "recomputeHash H ((c[i := (c ! i)\<lparr>transactions := txs\<rparr>]) ! n) = recomputeHash H (c ! n)"
  by (cases "i < length c") (simp_all add: nth_list_update list_update_beyond recomputeHash_transactions)

lemma blockOk_transactions:
  "blockOk H (c[i := (c ! i)\<lparr>transactions := txs\<rparr>]) j = blockOk H c j"
  by (simp only: blockOk_def hash_update_transactions previousHash_update_transactions
      recomputeHash_update_transactions)

lemma isValid_tamperAmount: "isValid H (tamperAmount bc i k a) = isValid H bc"
  by (simp add: isValid_def isValid_loop_iff tamperAmount_def blockOk_transactions)


text \<open>
  Claim C2, as the code has it.  \<^verbatim>\<open>isValid\<close> hashes the stored \<^verbatim>\<open>merkleRoot\<close> and never
  reads the transactions, so overwriting a transaction's amount in an appended block
  (every other stored field left as it was) does not change its result; on an honestly
  built proof-of-work chain it still returns true.
\<close>

theorem tamper_amount_not_detected:
  "isValid H (tamperAmount bc i k a) = isValid H bc
   \<and> (hex_digest H \<and> PoWBlockchain H fmt d ts0 = Some bc0
        \<and> addBlocks_PoW H fmt bc0 calls = Some bc1 \<longrightarrow> isValid H (tamperAmount bc1 i k a))"
proof (intro conjI impI)
  show "isValid H (tamperAmount bc i k a) = isValid H bc"
    by (rule isValid_tamperAmount)
next
  assume "hex_digest H \<and> PoWBlockchain H fmt d ts0 = Some bc0
        \<and> addBlocks_PoW H fmt bc0 calls = Some bc1"
  then have "isValid H bc1"
    using pow_run_valid(2) [of H fmt d ts0 bc0 calls bc1] by blast
  then show "isValid H (tamperAmount bc1 i k a)"
    by (simp only: isValid_tamperAmount)
qed

text \<open>
  The claim as stated fails: on the honestly built chain \<open>demoPoW2\<close> the amount 10 of
  the first transaction of block 1 is overwritten with 999, the stored Merkle root and
  digest stay, and \<^verbatim>\<open>isValid\<close> returns true.
\<close>

theorem tamper_amount_counterexample:
  "PoWBlockchain checksum_hex show_nat 1 1700000020 = Some demoPoW0
   \<and> addBlocks_PoW checksum_hex show_nat demoPoW0
        [(demoTxs 1, 1700000031), (demoTxs 2, 1700000037)] = Some demoPoW2
   \<and> amount (transactions (chain demoPoW2 ! 1) ! 0) = 10
   \<and> amount (transactions (chain (tamperAmount demoPoW2 1 0 999) ! 1) ! 0) = 999
   \<and> merkleRoot (chain (tamperAmount demoPoW2 1 0 999) ! 1) = merkleRoot (chain demoPoW2 ! 1)
   \<and> hash (chain (tamperAmount demoPoW2 1 0 999) ! 1) = hash (chain demoPoW2 ! 1)
   \<and> isValid checksum_hex (tamperAmount demoPoW2 1 0 999)"
proof -
  have "isValid checksum_hex demoPoW2"
    using hex_digest_checksum_hex demoPoW0_built demoPoW2_run by (rule pow_run_valid(2))
  then have v: "isValid checksum_hex (tamperAmount demoPoW2 1 0 999)"
    by (simp only: isValid_tamperAmount)
  have f: "amount (transactions (chain demoPoW2 ! 1) ! 0) = 10
      \<and> amount (transactions (chain (tamperAmount demoPoW2 1 0 999) ! 1) ! 0) = 999
      \<and> merkleRoot (chain (tamperAmount demoPoW2 1 0 999) ! 1) = merkleRoot (chain demoPoW2 ! 1)
      \<and> hash (chain (tamperAmount demoPoW2 1 0 999) ! 1) = hash (chain demoPoW2 ! 1)"
    by (simp add: tamperAmount_def demoPoW2_def demoTxs_def)
  from v f demoPoW0_built demoPoW2_run show ?thesis
    by blast
qed

theorem tamper_amount_not_detected_witness:
  "isValid checksum_hex (tamperAmount demoPoW2 1 0 999)
   \<and> isValid checksum_hex (tamperAmount demoPoW2 2 1 0) = isValid checksum_hex demoPoW2"
proof -
  have h: "hex_digest checksum_hex \<and> PoWBlockchain checksum_hex show_nat 1 1700000020 = Some demoPoW0
        \<and> addBlocks_PoW checksum_hex show_nat demoPoW0
             [(demoTxs 1, 1700000031), (demoTxs 2, 1700000037)] = Some demoPoW2"
    using hex_digest_checksum_hex demoPoW0_built demoPoW2_run by blast
  from tamper_amount_not_detected [where H = checksum_hex and bc = demoPoW2 and i = 1 and k = 0
      and a = 999 and fmt = show_nat and d = 1 and ?ts0.0 = 1700000020 and ?bc0.0 = demoPoW0
      and calls = "[(demoTxs 1, 1700000031), (demoTxs 2, 1700000037)]" and ?bc1.0 = demoPoW2] h
  have a: "isValid checksum_hex (tamperAmount demoPoW2 1 0 999)"
    by blast
  from tamper_amount_not_detected [where H = checksum_hex and bc = demoPoW2 and i = 2 and k = 1
      and a = 0]
  have "isValid checksum_hex (tamperAmount demoPoW2 2 1 0) = isValid checksum_hex demoPoW2"
    by blast
  with a show ?thesis by blast
qed

section \<open>Stake-weighted validator selection\<close>

text \<open>
  The running sum \<^verbatim>\<open>current\<close> after \<open>k\<close> validators is the wrapping \<^verbatim>\<open>uint64_t\<close> sum of
  the first \<open>k\<close> stakes, that is \<open>totalStake (take k vs)\<close>.  When the draw is below the
  wrapping sum over the whole list, the loop returns at the first index where the running
  sum exceeds the draw.
\<close>

lemma selectLoop_first:
  "r < foldl (\<lambda>total v. total + snd v) cur vs \<Longrightarrow> \<not> r < cur \<Longrightarrow>
   \<exists>i<length vs. selectLoop vs r cur = Some (fst (vs ! i))
      \<and> r < foldl (\<lambda>total v. total + snd v) cur (take (Suc i) vs)
      \<and> (\<forall>j<i. \<not> r < foldl (\<lambda>total v. total + snd v) cur (take (Suc j) vs))"
proof (induction vs arbitrary: cur)
  case Nil
  then show ?case by simp
next
  case (Cons v vs)
  show ?case
  proof (cases "r < cur + snd v")
    case True
    then have "selectLoop (v # vs) r cur = Some (fst ((v # vs) ! 0))
        \<and> r < foldl (\<lambda>total v. total + snd v) cur (take (Suc 0) (v # vs))
        \<and> (\<forall>j<0. \<not> r < foldl (\<lambda>total v. total + snd v) cur (take (Suc j) (v # vs)))"
      by simp
    then show ?thesis by blast
  next
    case False
    from Cons.prems(1) have "r < foldl (\<lambda>total v. total + snd v) (cur + snd v) vs"
      by simp
    from Cons.IH [OF this False] obtain i where i: "i < length vs"
      and s: "selectLoop vs r (cur + snd v) = Some (fst (vs ! i))"
      and e: "r < foldl (\<lambda>total v. total + snd v) (cur + snd v) (take (Suc i) vs)"
      and l: "\<forall>j<i. \<not> r < foldl (\<lambda>total v. total + snd v) (cur + snd v) (take (Suc j) vs)"
      by blast
    have "\<not> r < foldl (\<lambda>total v. total + snd v) cur (take (Suc j) (v # vs))" if "j < Suc i" for j
    proof (cases j)
      case 0
      with False show ?thesis by simp
    next
      case (Suc k)
      with that l show ?thesis by simp
    qed
    with i s e False have "Suc i < length (v # vs)
        \<and> selectLoop (v # vs) r cur = Some (fst ((v # vs) ! Suc i))
        \<and> r < foldl (\<lambda>total v. total + snd v) cur (take (Suc (Suc i)) (v # vs))
        \<and> (\<forall>j<Suc i. \<not> r < foldl (\<lambda>total v. total + snd v) cur (take (Suc j) (v # vs)))"
      by simp
    then show ?thesis by blast
  qed
qed

lemma selectLoop_mem: "selectLoop vs r cur = Some name \<Longrightarrow> name \<in> fst ` set vs"
  by (induction vs arbitrary: cur) (auto split: if_splits)

lemma selectLoop_zero_stakes:
  "\<forall>v\<in>set vs. snd v = 0 \<Longrightarrow> \<not> r < cur \<Longrightarrow> selectLoop vs r cur = None"
  by (induction vs arbitrary: cur) auto

lemma selectValidator_nonempty:
  "vs \<noteq> [] \<Longrightarrow> \<exists>name. selectValidator vs r = Inr name \<and> name \<in> fst ` set vs"
  by (cases "selectLoop vs r 0") (auto simp: selectValidator_def dest: selectLoop_mem)

text \<open>
  Without overflow the code's sums are the spec's: when the stakes sum to less than
  \<open>2 ^ 64\<close>, the running sum after \<open>k\<close> validators is \<open>totalStake_spec (take k vs)\<close>.
\<close>

lemma foldl_stake_of_nat:
  "foldl (\<lambda>total v. total + snd v) cur vs = cur + of_nat (totalStake_spec vs)"
  by (induction vs arbitrary: cur) (simp_all add: totalStake_spec_def ac_simps)

lemma totalStake_spec_append:
  "totalStake_spec (xs @ ys) = totalStake_spec xs + totalStake_spec ys"
  by (simp add: totalStake_spec_def)

lemma totalStake_spec_take: "totalStake_spec (take k vs) \<le> totalStake_spec vs"
proof -
  have "totalStake_spec (take k vs) \<le> totalStake_spec (take k vs) + totalStake_spec (drop k vs)"
    by (rule le_add1)
  also have "\<dots> = totalStake_spec (take k vs @ drop k vs)"
    by (simp only: totalStake_spec_append)
  also have "\<dots> = totalStake_spec vs"
    by (simp only: append_take_drop_id)
  finally show ?thesis .
qed

lemma unat_totalStake_take:
  assumes "totalStake_spec vs < 2 ^ 64"
  shows "unat (totalStake (take k vs)) = totalStake_spec (take k vs)"
proof -
  from totalStake_spec_take [of k vs] assms
  have "totalStake_spec (take k vs) < 2 ^ LENGTH(64)"
    by simp
  then have "unat (word_of_nat (totalStake_spec (take k vs)) :: 64 word)
      = totalStake_spec (take k vs)"
    by (rule of_nat_inverse [OF refl])
  moreover have "totalStake (take k vs) = word_of_nat (totalStake_spec (take k vs))"
    by (simp add: totalStake_def foldl_stake_of_nat)
  ultimately show ?thesis by (simp only:)
qed

lemma less_totalStake_take:
  assumes "totalStake_spec vs < 2 ^ 64"
  shows "r < totalStake (take k vs) \<longleftrightarrow> unat r < totalStake_spec (take k vs)"
  by (simp add: word_less_nat_alt unat_totalStake_take [OF assms])

lemma selectLoop_first_spec:
  assumes no: "totalStake_spec vs < 2 ^ 64" and r: "unat r < totalStake_spec vs"
  shows "\<exists>i<length vs. selectLoop vs r 0 = Some (fst (vs ! i))
      \<and> unat r < totalStake_spec (take (Suc i) vs)
      \<and> (\<forall>j<i. \<not> unat r < totalStake_spec (take (Suc j) vs))"
proof -
  from less_totalStake_take [OF no, of r "length vs"] r
  have "r < foldl (\<lambda>total v. total + snd v) 0 vs"
    by (simp add: totalStake_def)
  moreover have "\<not> r < 0" by simp
  ultimately obtain i where i: "i < length vs"
    and s: "selectLoop vs r 0 = Some (fst (vs ! i))"
    and e: "r < totalStake (take (Suc i) vs)"
    and l: "\<forall>j<i. \<not> r < totalStake (take (Suc j) vs)"
    using selectLoop_first [of r 0 vs] unfolding totalStake_def by blast
  from e have "unat r < totalStake_spec (take (Suc i) vs)"
    by (simp only: less_totalStake_take [OF no])
  moreover from l have "\<forall>j<i. \<not> unat r < totalStake_spec (take (Suc j) vs)"
    by (simp only: less_totalStake_take [OF no])
  ultimately show ?thesis using i s by blast
qed

text \<open>
  Claim C7, as the code has it.  When the stakes sum to less than \<open>2 ^ 64\<close>, selection
  with a draw \<open>r\<close> in \<open>[0, total stake)\<close> returns the first validator in list order whose
  cumulative stake strictly exceeds \<open>r\<close>; with the validators
  \<open>[(V1, 100), (V2, 200), (V3, 150)]\<close> and the draw 250 it returns \<open>V2\<close>.
\<close>

theorem selectValidator_first_exceeding:
  "(totalStake_spec vs < 2 ^ 64 \<and> unat r < totalStake_spec vs \<longrightarrow>
      (\<exists>i<length vs. selectValidator vs r = Inr (fst (vs ! i))
         \<and> unat r < totalStake_spec (take (Suc i) vs)
         \<and> (\<forall>j<i. \<not> unat r < totalStake_spec (take (Suc j) vs))))
   \<and> selectValidator [(''V1'', 100), (''V2'', 200), (''V3'', 150)] 250 = Inr ''V2''"
proof (intro conjI impI)
  assume "totalStake_spec vs < 2 ^ 64 \<and> unat r < totalStake_spec vs"
  then have "totalStake_spec vs < 2 ^ 64" and "unat r < totalStake_spec vs"
    by simp_all
  from selectLoop_first_spec [OF this]
  show "\<exists>i<length vs. selectValidator vs r = Inr (fst (vs ! i))
         \<and> unat r < totalStake_spec (take (Suc i) vs)
         \<and> (\<forall>j<i. \<not> unat r < totalStake_spec (take (Suc j) vs))"
    by (auto simp: selectValidator_def)
next
  show "selectValidator [(''V1'', 100), (''V2'', 200), (''V3'', 150)] 250 = Inr ''V2''"
    by (simp add: selectValidator_def)
qed

theorem selectValidator_first_exceeding_witness:
  "\<exists>i<length [(''V1'', 100 :: 64 word), (''V2'', 200), (''V3'', 150)].
      selectValidator [(''V1'', 100), (''V2'', 200), (''V3'', 150)] 449
        = Inr (fst ([(''V1'', 100 :: 64 word), (''V2'', 200), (''V3'', 150)] ! i))
      \<and> unat (449 :: 64 word) < totalStake_spec (take (Suc i) [(''V1'', 100), (''V2'', 200), (''V3'', 150)])
      \<and> (\<forall>j<i. \<not> unat (449 :: 64 word)
                    < totalStake_spec (take (Suc j) [(''V1'', 100), (''V2'', 200), (''V3'', 150)]))"
proof -
  have "totalStake_spec [(''V1'', 100), (''V2'', 200), (''V3'', 150)] < 2 ^ 64
      \<and> unat (449 :: 64 word) < totalStake_spec [(''V1'', 100), (''V2'', 200), (''V3'', 150)]"
    by (simp add: totalStake_spec_def)
  with selectValidator_first_exceeding [of "[(''V1'', 100), (''V2'', 200), (''V3'', 150)]" 449]
  show ?thesis by blast
qed

text \<open>
  The claim as stated fails when the sum overflows: with the stakes 1, \<open>2 ^ 64 - 1\<close> and
  10 the code's total wraps to 10, the draw 5 is in its range, the first validator whose
  cumulative stake exceeds 5 is \<open>B\<close> (cumulative stake \<open>2 ^ 64\<close>), and the code, whose
  running sum is 0 after \<open>B\<close>, returns \<open>C\<close>.
\<close>

theorem selectValidator_first_exceeding_counterexample:
  "unat (5 :: 64 word) < totalStake_spec wrapValidators
   \<and> 5 < totalStake wrapValidators
   \<and> drawRange wrapValidators 5
   \<and> \<not> unat (5 :: 64 word) < totalStake_spec (take 1 wrapValidators)
   \<and> unat (5 :: 64 word) < totalStake_spec (take 2 wrapValidators)
   \<and> fst (wrapValidators ! 1) = ''B''
   \<and> selectValidator wrapValidators 5 = Inr ''C''
   \<and> ''C'' \<noteq> ''B''"
  by (simp add: wrapValidators_def totalStake_spec_def totalStake_def drawRange_def
      selectValidator_def)

text \<open>
  Claim C9, as the code has it.  For a non-empty validator list whose stakes sum to less
  than \<open>2 ^ 64\<close> and a draw strictly less than the total stake, the accumulation loop
  returns a validator before the list is exhausted: the fallback
  \<^verbatim>\<open>validators.back().first\<close> is not reached.
\<close>

theorem selectLoop_returns_before_fallback:
  assumes "vs \<noteq> []" and "totalStake_spec vs < 2 ^ 64" and "unat r < totalStake_spec vs"
  shows "\<exists>name. selectLoop vs r 0 = Some name \<and> selectValidator vs r = Inr name
           \<and> name \<in> fst ` set vs"
proof -
  from selectLoop_first_spec [OF assms(2,3)] obtain name where n: "selectLoop vs r 0 = Some name"
    by blast
  then have "selectValidator vs r = Inr name"
    by (simp add: selectValidator_def)
  with n selectLoop_mem [OF n] show ?thesis by blast
qed

theorem selectLoop_returns_before_fallback_witness:
  "\<exists>name. selectLoop [(''V1'', 100), (''V2'', 200), (''V3'', 150)] 449 0 = Some name
     \<and> selectValidator [(''V1'', 100), (''V2'', 200), (''V3'', 150)] 449 = Inr name
     \<and> name \<in> fst ` set [(''V1'', 100 :: 64 word), (''V2'', 200), (''V3'', 150)]"
proof -
  have "[(''V1'', 100 :: 64 word), (''V2'', 200), (''V3'', 150)] \<noteq> []"
    by simp
  moreover have "totalStake_spec [(''V1'', 100), (''V2'', 200), (''V3'', 150)] < 2 ^ 64"
    by (simp add: totalStake_spec_def)
  moreover have "unat (449 :: 64 word) < totalStake_spec [(''V1'', 100), (''V2'', 200), (''V3'', 150)]"
    by (simp add: totalStake_spec_def)
  ultimately show ?thesis
    by (rule selectLoop_returns_before_fallback)
qed

text \<open>
  The claim as stated fails when the sum overflows: with two stakes of \<open>2 ^ 63\<close> the
  code's total wraps to 0, so every \<^verbatim>\<open>uint64_t\<close> value is a possible draw; the draw
  \<open>2 ^ 63\<close> is below the total stake \<open>2 ^ 64\<close>, no running sum exceeds it, the loop
  exhausts the list and the fallback returns \<open>B\<close>.
\<close>

theorem selectLoop_returns_before_fallback_counterexample:
  "halfValidators \<noteq> []
   \<and> totalStake_spec halfValidators = 2 ^ 64
   \<and> unat (9223372036854775808 :: 64 word) < totalStake_spec halfValidators
   \<and> drawRange halfValidators 9223372036854775808
   \<and> selectLoop halfValidators 9223372036854775808 0 = None
   \<and> selectValidator halfValidators 9223372036854775808 = Inr ''B''"
  by (simp add: halfValidators_def totalStake_spec_def totalStake_def drawRange_def
      selectValidator_def)

section \<open>Concrete proof-of-stake chains\<close>

lemma forgeBlock_eval:
  "computeHash H b 0 v = h \<Longrightarrow> forgeBlock H b v = b\<lparr>nonce := 0, hash := h\<rparr>"
  by (auto simp: forgeBlock_def Let_def)

lemma genesis_eval:
  "Blockchain checksum_hex show_nat ts
   = [\<lparr>index = 0, previousHash = ''0'', merkleRoot = ''07'',
       transactions = (genesisTx :: nat Transaction list), timestamp = ts, nonce = 0, hash = []\<rparr>]"
  by (simp add: Blockchain_def run_simps)

lemma posTxs_root:
  "getRoot (MerkleTree checksum_hex (map (toString show_nat) posTxs)) = ''62''"
  by (simp add: posTxs_def run_simps)

lemma demoPoS0_built:
  "PoSBlockchain checksum_hex show_nat demoValidators 250 1700000020 = Inr demoPoS0"
proof -
  have sv: "selectValidator demoValidators 250 = Inr ''Validator2''"
    by (simp add: selectValidator_def demoValidators_def)
  have "computeHash checksum_hex
          \<lparr>index = 0, previousHash = ''0'', merkleRoot = ''07'',
           transactions = (genesisTx :: nat Transaction list), timestamp = 1700000020,
           nonce = 0, hash = []\<rparr> 0 ''Validator2'' = ''14''"
    by (simp add: computeHash_def show_u64_def, simp add: show_nat.simps digit_char_def,
        simp add: checksum_hex_def hex_digit_def)
  then show ?thesis
    by (simp add: PoSBlockchain_def genesis_eval sv forgeBlock_eval demoPoS0_def)
qed

lemma demoPoS1_built:
  "addBlock_PoS checksum_hex show_nat demoPoS0 posTxs 50 1700000031 = Inr demoPoS1"
proof -
  have sv: "selectValidator demoValidators 50 = Inr ''Validator1''"
    by (simp add: selectValidator_def demoValidators_def)
  have "computeHash checksum_hex
          \<lparr>index = 1, previousHash = ''14'', merkleRoot = ''62'',
           transactions = posTxs, timestamp = 1700000031,
           nonce = 0, hash = []\<rparr> 0 ''Validator1'' = ''70''"
    by (simp add: computeHash_def show_u64_def, simp add: show_nat.simps digit_char_def,
        simp add: checksum_hex_def hex_digit_def)
  then show ?thesis
    by (simp add: addBlock_PoS_def getLastBlock_def Block_def posTxs_root sv forgeBlock_eval
        demoPoS0_def demoPoS1_def)
qed

lemma zeroStakePoS0_built:
  "PoSBlockchain checksum_hex show_nat [(''V1'', 0)] 7 1700000020 = Inr zeroStakePoS0"
proof -
  have sv: "selectValidator [(''V1'', 0)] 7 = Inr ''V1''"
    by (simp add: selectValidator_def)
  have "computeHash checksum_hex
          \<lparr>index = 0, previousHash = ''0'', merkleRoot = ''07'',
           transactions = (genesisTx :: nat Transaction list), timestamp = 1700000020,
           nonce = 0, hash = []\<rparr> 0 ''V1'' = ''19''"
    by (simp add: computeHash_def show_u64_def, simp add: show_nat.simps digit_char_def,
        simp add: checksum_hex_def hex_digit_def)
  then show ?thesis
    by (simp add: PoSBlockchain_def genesis_eval sv forgeBlock_eval zeroStakePoS0_def)
qed

lemma zeroStakePoS1_built:
  "addBlock_PoS checksum_hex show_nat zeroStakePoS0 posTxs 12345 1700000031 = Inr zeroStakePoS1"
proof -
  have sv: "selectValidator [(''V1'', 0)] 12345 = Inr ''V1''"
    by (simp add: selectValidator_def)
  have "computeHash checksum_hex
          \<lparr>index = 1, previousHash = ''19'', merkleRoot = ''62'',
           transactions = posTxs, timestamp = 1700000031,
           nonce = 0, hash = []\<rparr> 0 ''V1'' = ''99''"
    by (simp add: computeHash_def show_u64_def, simp add: show_nat.simps digit_char_def,
        simp add: checksum_hex_def hex_digit_def)
  then show ?thesis
    by (simp add: addBlock_PoS_def getLastBlock_def Block_def posTxs_root sv forgeBlock_eval
        zeroStakePoS0_def zeroStakePoS1_def)
qed

section \<open>Proof-of-stake with zero total stake\<close>

lemma forgeBlock_fields [simp]:
  "hash (forgeBlock H b v) = computeHash H b 0 v"
  "nonce (forgeBlock H b v) = 0"
  "previousHash (forgeBlock H b v) = previousHash b"
  "computeHash H' (forgeBlock H b v) n w = computeHash H' b n w"
  by (simp_all add: forgeBlock_def Let_def)

lemma totalStake_zero_drawRange: "totalStake vals = 0 \<Longrightarrow> drawRange vals r"
  by (simp add: drawRange_def)

text \<open>
  Claim C3, as the code has it.  The program has no \<^verbatim>\<open>InvalidConfiguration\<close> error.  With a
  non-empty validator list whose total stake is zero, \<^verbatim>\<open>totalStake - 1\<close> wraps, so every
  \<^verbatim>\<open>uint64_t\<close> draw is in range; selection returns a listed validator (the last one,
  through the fallback, when every stake is zero), the constructor forges the genesis
  block with it and \<^verbatim>\<open>addBlock\<close> attaches a block forged with it.
\<close>

theorem pos_zero_stake_proceeds:
  assumes "vals \<noteq> []" and "totalStake vals = 0" and "validators bc = vals"
  shows "drawRange vals r
    \<and> (\<exists>name \<in> fst ` set vals.
          selectValidator vals r = Inr name
          \<and> PoSBlockchain H fmt vals r ts
              = Inr \<lparr>chain = [forgeBlock H (Block H fmt 0 ''0'' genesisTx ts) name], validators = vals\<rparr>
          \<and> addBlock_PoS H fmt bc txs r ts
              = Inr (bc\<lparr>chain := chain bc @
                   [forgeBlock H (Block H fmt (of_nat (length (chain bc)))
                      (hash (getLastBlock (chain bc))) txs ts) name]\<rparr>))
    \<and> ((\<forall>v \<in> set vals. snd v = 0) \<longrightarrow> selectValidator vals r = Inr (fst (last vals)))"
proof (intro conjI impI)
  from assms(2) show "drawRange vals r"
    by (rule totalStake_zero_drawRange)
next
  from selectValidator_nonempty [OF assms(1)] obtain name
    where n: "selectValidator vals r = Inr name" and m: "name \<in> fst ` set vals"
    by blast
  have "PoSBlockchain H fmt vals r ts
      = Inr \<lparr>chain = [forgeBlock H (Block H fmt 0 ''0'' genesisTx ts) name], validators = vals\<rparr>"
    by (simp add: PoSBlockchain_def Blockchain_def n)
  moreover have "addBlock_PoS H fmt bc txs r ts
      = Inr (bc\<lparr>chain := chain bc @
           [forgeBlock H (Block H fmt (of_nat (length (chain bc)))
              (hash (getLastBlock (chain bc))) txs ts) name]\<rparr>)"
    by (simp add: addBlock_PoS_def assms(3) n)
  ultimately show "\<exists>name \<in> fst ` set vals.
          selectValidator vals r = Inr name
          \<and> PoSBlockchain H fmt vals r ts
              = Inr \<lparr>chain = [forgeBlock H (Block H fmt 0 ''0'' genesisTx ts) name], validators = vals\<rparr>
          \<and> addBlock_PoS H fmt bc txs r ts
              = Inr (bc\<lparr>chain := chain bc @
                   [forgeBlock H (Block H fmt (of_nat (length (chain bc)))
                      (hash (getLastBlock (chain bc))) txs ts) name]\<rparr>)"
    using n m by blast
next
  assume "\<forall>v \<in> set vals. snd v = 0"
  then have "selectLoop vals r 0 = None"
    by (rule selectLoop_zero_stakes) simp
  with assms(1) show "selectValidator vals r = Inr (fst (last vals))"
    by (simp add: selectValidator_def)
qed

text \<open>
  The claim as stated fails: with the single validator \<open>(V1, 0)\<close> the total stake is
  zero, and both the constructor and \<^verbatim>\<open>addBlock\<close> return a chain, of one and of two
  blocks.
\<close>

theorem pos_zero_stake_counterexample:
  "totalStake [(''V1'', 0)] = 0
   \<and> PoSBlockchain checksum_hex show_nat [(''V1'', 0)] 7 1700000020 = Inr zeroStakePoS0
   \<and> addBlock_PoS checksum_hex show_nat zeroStakePoS0 posTxs 12345 1700000031 = Inr zeroStakePoS1
   \<and> length (chain zeroStakePoS0) = 1 \<and> length (chain zeroStakePoS1) = 2"
  using zeroStakePoS0_built zeroStakePoS1_built
  by (simp add: totalStake_def zeroStakePoS0_def zeroStakePoS1_def)

theorem pos_zero_stake_proceeds_witness:
  "drawRange [(''V1'', 0)] 12345
   \<and> selectValidator [(''V1'', 0)] 12345 = Inr ''V1''
   \<and> (\<exists>name \<in> fst ` set [(''V1'', 0 :: 64 word)].
         addBlock_PoS checksum_hex show_nat zeroStakePoS0 posTxs 12345 1700000031
           = Inr (zeroStakePoS0\<lparr>chain := chain zeroStakePoS0 @
                [forgeBlock checksum_hex (Block checksum_hex show_nat
                   (of_nat (length (chain zeroStakePoS0)))
                   (hash (getLastBlock (chain zeroStakePoS0))) posTxs 1700000031) name]\<rparr>))"
proof -
  have 1: "[(''V1'', 0 :: 64 word)] \<noteq> []" by simp
  have 2: "totalStake [(''V1'', 0)] = 0" by (simp add: totalStake_def)
  have 3: "validators zeroStakePoS0 = [(''V1'', 0)]" by (simp add: zeroStakePoS0_def)
  have 4: "\<forall>v \<in> set [(''V1'', 0 :: 64 word)]. snd v = 0" by simp
  have 5: "fst (last [(''V1'', 0 :: 64 word)]) = ''V1''" by simp
  note t = pos_zero_stake_proceeds [OF 1 2 3, of 12345 checksum_hex show_nat 1700000031 posTxs]
  from t 4 have "selectValidator [(''V1'', 0)] 12345 = Inr (fst (last [(''V1'', 0 :: 64 word)]))"
    by blast
  with t 5 show ?thesis by auto
qed

section \<open>Validation of proof-of-stake chains\<close>

lemma PoSBlockchain_Inr:
  "PoSBlockchain H fmt vals r ts = Inr bc \<Longrightarrow> length (chain bc) = 1 \<and> validators bc = vals"
  by (auto simp: PoSBlockchain_def Blockchain_def Let_def split: sum.splits)

lemma addBlock_PoS_Inr:
  "addBlock_PoS H fmt bc txs r ts = Inr bc' \<Longrightarrow>
   \<exists>name. selectValidator (validators bc) r = Inr name
     \<and> chain bc' = chain bc @ [forgeBlock H (Block H fmt (of_nat (length (chain bc)))
                                  (hash (getLastBlock (chain bc))) txs ts) name]
     \<and> validators bc' = validators bc"
  by (auto simp: addBlock_PoS_def Let_def split: sum.splits)

lemma addBlocks_PoS_prefix:
  "addBlocks_PoS H fmt bc calls = Inr bc' \<Longrightarrow> \<exists>more. chain bc' = chain bc @ more"
proof (induction calls arbitrary: bc)
  case Nil
  then show ?case by simp
next
  case (Cons call calls)
  obtain txs r ts where call: "call = (txs, r, ts)" by (cases call)
  with Cons.prems obtain bc1 where a: "addBlock_PoS H fmt bc txs r ts = Inr bc1"
    and rest: "addBlocks_PoS H fmt bc1 calls = Inr bc'"
    by (auto split: sum.splits)
  from addBlock_PoS_Inr [OF a] obtain x where "chain bc1 = chain bc @ [x]" by blast
  moreover from Cons.IH [OF rest] obtain more where "chain bc' = chain bc1 @ more" by blast
  ultimately show ?case by simp
qed

text \<open>
  Claim C1 says that validation of a freshly forged chain succeeds.  The code does the
  opposite.  \<^verbatim>\<open>forgeBlock\<close> stores the digest of the fields followed by
  \<^verbatim>\<open>" (Validated by: <name>)"\<close>; the block has no validator field, and \<^verbatim>\<open>isValid\<close> looks
  for the marker inside the stored digest, which is hexadecimal and never contains it.
  So the recomputation is the digest of the fields alone, and unless the two digests
  collide, block 1 fails the comparison and \<^verbatim>\<open>isValid\<close> returns false for every
  proof-of-stake chain with an appended block.
\<close>

theorem pos_chain_rejected:
  assumes hex: "hex_digest H"
    and g: "PoSBlockchain H fmt vals r0 ts0 = Inr bc0"
    and a: "addBlock_PoS H fmt bc0 txs r1 ts1 = Inr bc1"
    and rest: "addBlocks_PoS H fmt bc1 calls = Inr bc"
    and v: "selectValidator vals r1 = Inr name"
    and differ: "computeHash H (chain bc1 ! 1) 0 name \<noteq> computeHash H (chain bc1 ! 1) 0 []"
  shows "hash (chain bc ! 1) = computeHash H (chain bc ! 1) 0 name
       \<and> recomputeHash H (chain bc ! 1) = computeHash H (chain bc ! 1) (nonce (chain bc ! 1)) []
       \<and> hash (chain bc ! 1) \<noteq> recomputeHash H (chain bc ! 1)
       \<and> \<not> isValid H bc"
proof -
  from PoSBlockchain_Inr [OF g] have l0: "length (chain bc0) = 1" and v0: "validators bc0 = vals"
    by simp_all
  let ?nb = "Block H fmt (of_nat (length (chain bc0))) (hash (getLastBlock (chain bc0))) txs ts1"
  from addBlock_PoS_Inr [OF a] v v0 have c1: "chain bc1 = chain bc0 @ [forgeBlock H ?nb name]"
    by auto
  from addBlocks_PoS_prefix [OF rest] obtain more where c: "chain bc = chain bc1 @ more"
    by blast
  from c1 l0 have b1: "chain bc1 ! 1 = forgeBlock H ?nb name"
    by (simp add: nth_append)
  from c c1 l0 have b: "chain bc ! 1 = forgeBlock H ?nb name"
    by (simp add: nth_append)
  have h: "hash (chain bc ! 1) = computeHash H (chain bc ! 1) 0 name"
    unfolding b by simp
  from hex have "set (hash (chain bc ! 1)) \<subseteq> hex_chars"
    unfolding b by (simp add: computeHash_def hex_digest_def)
  then have r: "recomputeHash H (chain bc ! 1) = computeHash H (chain bc ! 1) (nonce (chain bc ! 1)) []"
    by (rule recomputeHash_hex)
  from differ have d: "hash (chain bc ! 1) \<noteq> recomputeHash H (chain bc ! 1)"
    unfolding r unfolding b b1 by simp
  then have "\<not> blockOk H (chain bc) 1"
    by (simp add: blockOk_def)
  moreover from c c1 l0 have "1 < length (chain bc)"
    by simp
  ultimately have "\<not> isValid H bc"
    by (auto simp: isValid_def isValid_loop_iff)
  with h r d show ?thesis by blast
qed

theorem pos_chain_rejected_witness:
  "hash (chain demoPoS1 ! 1) = computeHash checksum_hex (chain demoPoS1 ! 1) 0 ''Validator1''
   \<and> hash (chain demoPoS1 ! 1) \<noteq> recomputeHash checksum_hex (chain demoPoS1 ! 1)
   \<and> \<not> isValid checksum_hex demoPoS1"
proof -
  have r: "addBlocks_PoS checksum_hex show_nat demoPoS1 [] = Inr demoPoS1"
    by simp
  have v: "selectValidator demoValidators 50 = Inr ''Validator1''"
    by (simp add: selectValidator_def demoValidators_def)
  have e1: "computeHash checksum_hex (chain demoPoS1 ! 1) 0 ''Validator1'' = ''70''"
    by (simp add: demoPoS1_def computeHash_def show_u64_def, simp add: show_nat.simps digit_char_def,
        simp add: checksum_hex_def hex_digit_def)
  have e2: "computeHash checksum_hex (chain demoPoS1 ! 1) 0 [] = ''63''"
    by (simp add: demoPoS1_def computeHash_def show_u64_def, simp add: show_nat.simps digit_char_def,
        simp add: checksum_hex_def hex_digit_def)
  have d: "computeHash checksum_hex (chain demoPoS1 ! 1) 0 ''Validator1''
      \<noteq> computeHash checksum_hex (chain demoPoS1 ! 1) 0 []"
    by (simp only: e1 e2) simp
  from pos_chain_rejected [OF hex_digest_checksum_hex demoPoS0_built demoPoS1_built r v d]
  show ?thesis by blast
qed

end
